theory Spec2Isabelle
  imports Complex_Main
begin

section \<open>Geometric primitives of convhull\_3d.h\<close>

text \<open>
  The arithmetic type \<open>CH_FLOAT\<close> is modelled by the real numbers: every statement below
  is about the program run in exact arithmetic. Flat C arrays are lists; a matrix argument
  \<open>m\<close> is the row-major list of its entries, read as \<open>m ! k\<close> where the source reads
  \<open>m[k]\<close>.
\<close>

subsection \<open>Determinants\<close>

text \<open>\<open>det_4x4\<close>: the closed form of the source, term by term.\<close>

definition det_4x4 :: "real list \<Rightarrow> real" where
  "det_4x4 m =
     m!3 * m!6 * m!9 * m!12 - m!2 * m!7 * m!9 * m!12 - m!3 * m!5 * m!10 * m!12 +
     m!1 * m!7 * m!10 * m!12 + m!2 * m!5 * m!11 * m!12 - m!1 * m!6 * m!11 * m!12 -
     m!3 * m!6 * m!8 * m!13 + m!2 * m!7 * m!8 * m!13 + m!3 * m!4 * m!10 * m!13 -
     m!0 * m!7 * m!10 * m!13 - m!2 * m!4 * m!11 * m!13 + m!0 * m!6 * m!11 * m!13 +
     m!3 * m!5 * m!8 * m!14 - m!1 * m!7 * m!8 * m!14 - m!3 * m!4 * m!9 * m!14 +
     m!0 * m!7 * m!9 * m!14 + m!1 * m!4 * m!11 * m!14 - m!0 * m!5 * m!11 * m!14 -
     m!2 * m!5 * m!8 * m!15 + m!1 * m!6 * m!8 * m!15 + m!2 * m!4 * m!9 * m!15 -
     m!0 * m!6 * m!9 * m!15 - m!1 * m!4 * m!10 * m!15 + m!0 * m!5 * m!10 * m!15"

text \<open>
  \<open>createSubMatrix(m, N, i, sub_m)\<close> copies the entries \<open>m[j]\<close>, \<open>N \<le> j < N * N\<close>, whose
  column \<open>j % N\<close> is not \<open>i\<close>, in increasing order of \<open>j\<close>.
\<close>

definition createSubMatrix :: "real list \<Rightarrow> nat \<Rightarrow> nat \<Rightarrow> real list" where
  "createSubMatrix m N i = map (\<lambda>j. m ! j) (filter (\<lambda>j. j mod N \<noteq> i) [N..<N * N])"

text \<open>
  \<open>det_NxN\<close>: the loop over \<open>i\<close> carries the running \<open>sum\<close> and the alternating \<open>sign\<close>.
  The scratch buffer \<open>sub_m\<close> of the source holds 25 entries, so the source is defined for
  \<open>d \<le> 6\<close> only.
\<close>

fun det_NxN :: "real list \<Rightarrow> nat \<Rightarrow> real" where
  "det_NxN m d =
     (if d = 0 then 1
      else fst (fold (\<lambda>i (sum, sign).
                  (sum + sign * m ! i * det_NxN (createSubMatrix m d i) (d - 1), sign * (-1)))
                [0..<d] (0, 1)))"

text \<open>
  The reference the recursive routine is compared with: the Laplace expansion of a matrix,
  given as a list of rows, along its first row. The determinant of the empty matrix is 1.
\<close>

definition delete_col :: "nat \<Rightarrow> 'a list \<Rightarrow> 'a list" where
  "delete_col i r = take i r @ drop (Suc i) r"

function det_cofactor :: "real list list \<Rightarrow> real" where
  "det_cofactor [] = 1"
| "det_cofactor (r # rs) =
     (\<Sum>i\<leftarrow>[0..<Suc (length rs)]. (- 1) ^ i * r ! i * det_cofactor (map (delete_col i) rs))"
  by pat_completeness auto
termination
  by (relation "measure length") auto

definition square_matrix :: "nat \<Rightarrow> 'a list list \<Rightarrow> bool" where
  "square_matrix d rows \<longleftrightarrow> length rows = d \<and> (\<forall>r \<in> set rows. length r = d)"

subsection \<open>Hyperplane through d points\<close>

text \<open>
  \<open>plane_3d\<close> and \<open>plane_nd\<close> receive the \<open>Nd\<close> points as one row-major array \<open>p\<close> and return the
  coefficient vector \<open>c\<close> and the constant term \<open>d\<close> (the two output pointers of the source) as a
  pair. \<open>pdiff_rows\<close> is the array \<open>pdiff\<close> of differences of consecutive points;
  \<open>pdiff_sub\<close> is \<open>pdiff_s\<close>, the copy of \<open>pdiff\<close> without column \<open>i\<close> (the index array \<open>r\<close> of the
  source holds \<open>r[k] = k\<close>). The loop over \<open>i\<close> carries \<open>c\<close> and the alternating \<open>sign\<close>.
  The division by \<open>norm_c\<close> is the division of the reals: where the source divides by a zero
  norm (and stores NaN), the model stores 0, so the statements about the result assume a
  nonzero normal.
\<close>

definition pdiff_rows :: "nat \<Rightarrow> real list \<Rightarrow> real list list" where
  "pdiff_rows Nd p =
     map (\<lambda>i. map (\<lambda>j. p ! ((i + 1) * Nd + j) - p ! (i * Nd + j)) [0..<Nd]) [0..<Nd - 1]"

definition pdiff_sub :: "nat \<Rightarrow> real list list \<Rightarrow> nat \<Rightarrow> real list list" where
  "pdiff_sub Nd pdiff i =
     map (\<lambda>j. map (\<lambda>k. pdiff ! j ! k) (filter (\<lambda>k. k \<noteq> i) [0..<Nd])) [0..<Nd - 1]"

definition plane_3d :: "real list \<Rightarrow> real list \<times> real" where
  "plane_3d p =
     (let pdiff = pdiff_rows 3 p;
          c = fst (fold (\<lambda>i (c, sign).
                     let pdiff_s = pdiff_sub 3 pdiff i;
                         det = pdiff_s ! 0 ! 0 * pdiff_s ! 1 ! 1 - pdiff_s ! 1 ! 0 * pdiff_s ! 0 ! 1
                     in (c[i := sign * det], sign * (- 1)))
                   [0..<3] (replicate 3 0, 1));
          norm_c = sqrt (fold (\<lambda>i n. n + (c ! i)\<^sup>2) [0..<3] 0);
          c = map (\<lambda>x. x / norm_c) c;
          d = fold (\<lambda>i d. d + - (p ! i) * c ! i) [0..<3] 0
      in (c, d))"

definition plane_nd :: "nat \<Rightarrow> real list \<Rightarrow> real list \<times> real" where
  "plane_nd Nd p =
     (if Nd = 3 then plane_3d p
      else
        let pdiff = pdiff_rows Nd p;
            c = fst (fold (\<lambda>i (c, sign).
                       let pdiff_s = concat (pdiff_sub Nd pdiff i);
                           det = (if Nd = 3
                                  then pdiff_s ! (0 * (Nd - 1) + 0) * pdiff_s ! (1 * (Nd - 1) + 1) -
                                       pdiff_s ! (1 * (Nd - 1) + 0) * pdiff_s ! (0 * (Nd - 1) + 1)
                                  else if Nd = 5 then det_4x4 pdiff_s
                                  else det_NxN pdiff_s (Nd - 1))
                       in (c[i := sign * det], sign * (- 1)))
                     [0..<Nd] (replicate Nd 0, 1));
            norm_c = sqrt (fold (\<lambda>i n. n + (c ! i)\<^sup>2) [0..<Nd] 0);
            c = map (\<lambda>x. x / norm_c) c;
            d = fold (\<lambda>i d. d + - (p ! i) * c ! i) [0..<Nd] 0
        in (c, d))"

definition cofactor_normal :: "nat \<Rightarrow> real list \<Rightarrow> real list" where
  "cofactor_normal Nd p =
     map (\<lambda>i. (- 1) ^ i * det_cofactor (map (delete_col i) (pdiff_rows Nd p))) [0..<Nd]"

definition dot :: "nat \<Rightarrow> real list \<Rightarrow> real list \<Rightarrow> real" where
  "dot n a b = (\<Sum>k\<leftarrow>[0..<n]. a ! k * b ! k)"


text \<open>
  The words of the specification: the normal is the generalized cross product, component
  \<open>i\<close> being the cofactor of the point-difference matrix without column \<open>i\<close>, with
  alternating sign; it is then scaled to unit length.
\<close>

definition normalise :: "real list \<Rightarrow> real list" where
  "normalise c = map (\<lambda>x. x / sqrt (\<Sum>x\<leftarrow>c. x\<^sup>2)) c"

section \<open>The hull engine\<close>

subsection \<open>Ordering utilities\<close>

text \<open>
  \<open>sort_int\<close> is only called in place, ascending and without the index output; \<open>qsort\<close> with
  \<open>cmp_asc_int\<close> leaves the sorted array. \<open>ismember\<close> writes 1 at every position of \<open>pLeft\<close>
  whose value occurs in \<open>pRight\<close> and 0 elsewhere.
\<close>

definition sort_int :: "nat list \<Rightarrow> nat list" where
  "sort_int in_vec = sort in_vec"

definition ismember :: "nat list \<Rightarrow> nat list \<Rightarrow> nat list" where
  "ismember pLeft pRight = map (\<lambda>x. if x \<in> set pRight then 1 else 0) pLeft"

text \<open>
  \<open>sort_float\<close> is only called descending, for the index output \<open>new_idices\<close>. The order
  \<open>qsort\<close> gives to equal keys is not specified; the model keeps equal keys in their input
  order. Every property proved below holds for any permutation.
\<close>

definition sort_float :: "real list \<Rightarrow> nat list" where
  "sort_float in_vec = map snd (sort_key (\<lambda>(v, i). - v) (zip in_vec [0..<length in_vec]))"

subsection \<open>Results and state\<close>

text \<open>
  A call returns normally or ends in one of four ways: the two \<open>throw\<close> statements
  (\<open>SpanError\<close>: the input does not span all dimensions; \<open>OrientationError\<close>: a new face
  cannot be oriented), a failed \<open>assert\<close>, or a read outside an allocated array, which is
  undefined behaviour in the source (\<open>OutOfBounds\<close>). The model is the build without
  \<open>NDEBUG\<close>, where the asserts and the orientation check are compiled in.
\<close>

datatype build_error = SpanError | OrientationError | AssertionError | OutOfBounds

text \<open>
  The output pointers. \<open>None\<close> is the \<open>NULL\<close> the source stores on failure. The flat output
  \<open>nOut_faces x d\<close> is kept as the list of its rows. \<open>out_cf\<close> and \<open>out_df\<close> are what is stored
  through the optional pointers when the caller passes them.
\<close>

record ch_out =
  out_faces :: "nat list list option"
  nOut_faces :: nat

record chnd_out = ch_out +
  out_cf :: "real list list option"
  out_df :: "real list option"

text \<open>
  The state of the main loop: the parallel arrays \<open>faces\<close> (\<open>nFaces x d\<close> vertex indices),
  \<open>cf\<close> (\<open>nFaces x d\<close> plane coefficients) and \<open>df\<close> (\<open>nFaces\<close> constant terms), each kept as
  the list of its rows, so that \<open>nFaces\<close> is their length; the queue \<open>pleft\<close> of \<open>num_pleft\<close>
  points; and the flag \<open>ERROR\<close>. The per-iteration scratch buffers and the counter \<open>cnt\<close>,
  which is written and never read, are not part of the state.
\<close>

record hull_state =
  faces :: "nat list list"
  cf :: "real list list"
  df :: "real list"
  pleft :: "nat list"
  ERROR :: bool

definition nFaces :: "hull_state \<Rightarrow> nat" where
  "nFaces st = length (faces st)"

definition CH_MAX_NUM_FACES :: nat where
  "CH_MAX_NUM_FACES = 50000"

definition CONVHULL_ND_MAX_DIMENSIONS :: nat where
  "CONVHULL_ND_MAX_DIMENSIONS = 5"

definition CH_NOISE_VAL :: real where
  "CH_NOISE_VAL = 1 / 10000000"

text \<open>
  The span threshold is the single-precision literal \<open>0.0000001f\<close>, whose value is
  \<open>14073749 / 2 ^ 47\<close>.
\<close>

definition span_threshold :: real where
  "span_threshold = 14073749 / 2 ^ 47"

subsection \<open>Reading the working points\<close>

text \<open>
  \<open>points\<close> is the \<open>nVert x (d + 1)\<close> array of perturbed points with a trailing 1, as the
  list of its rows. Row \<open>v\<close> exists for \<open>v < nVert\<close>; the source reads other rows out of
  bounds.
\<close>

definition point_row :: "real list list \<Rightarrow> nat \<Rightarrow> build_error + real list" where
  "point_row points v = (if v < length points then Inr (points ! v) else Inl OutOfBounds)"

fun point_rows :: "real list list \<Rightarrow> nat list \<Rightarrow> build_error + real list list" where
  "point_rows points [] = Inr []"
| "point_rows points (v # vs) =
     (case point_row points v of
        Inl e \<Rightarrow> Inl e
      | Inr r \<Rightarrow> (case point_rows points vs of
                    Inl e \<Rightarrow> Inl e
                  | Inr rs \<Rightarrow> Inr (r # rs)))"

text \<open>
  The plane of a face: \<open>p_s\<close> takes the first \<open>d\<close> coordinates of each vertex of the face,
  and the plane routine returns \<open>(cfi, dfi)\<close>.
\<close>

definition face_plane ::
  "nat \<Rightarrow> (real list \<Rightarrow> real list \<times> real) \<Rightarrow> real list list \<Rightarrow> nat list
     \<Rightarrow> build_error + real list \<times> real" where
  "face_plane d plane points face =
     (case point_rows points face of
        Inl e \<Rightarrow> Inl e
      | Inr rows \<Rightarrow> Inr (plane (concat (map (take d) rows))))"

text \<open>
  The matrix \<open>A\<close> of the orientation test: the rows of the face's vertices, then the row of
  the reference point \<open>p\<close>, each with its trailing 1; \<open>det\<close> is its determinant.
\<close>

definition orientation_det ::
  "(real list \<Rightarrow> real) \<Rightarrow> real list list \<Rightarrow> nat list \<Rightarrow> nat \<Rightarrow> build_error + real" where
  "orientation_det det points face p =
     (case point_rows points (face @ [p]) of
        Inl e \<Rightarrow> Inl e
      | Inr rows \<Rightarrow> Inr (det (concat rows)))"

text \<open>
  The three arrays \<open>faces\<close>, \<open>cf\<close> and \<open>df\<close> as lists of rows. Entry \<open>p\<close> of the flat array
  \<open>faces\<close> is entry \<open>p mod d\<close> of row \<open>p div d\<close>.
\<close>

type_synonym face_table = "nat list list \<times> real list list \<times> real list"

definition face_entry :: "nat \<Rightarrow> nat list list \<Rightarrow> nat \<Rightarrow> nat" where
  "face_entry d F p = F ! (p div d) ! (p mod d)"

definition set_face_entry :: "nat \<Rightarrow> nat \<Rightarrow> nat \<Rightarrow> nat list list \<Rightarrow> nat list list" where
  "set_face_entry d p v F = F[p div d := (F ! (p div d))[p mod d := v]]"

text \<open>
  Reversing the last two vertices of face \<open>k\<close>: \<open>face_tmp[j] = faces[k * d + d - j - 1]\<close> for
  \<open>j = 0, 1\<close>, then \<open>faces[k * d + d - j - 1] = face_tmp[1 - j]\<close>. For \<open>d \<ge> 2\<close> both entries
  lie in row \<open>k\<close>. For \<open>d = 1\<close> they are row \<open>k\<close> and row \<open>k - 1\<close>, and for \<open>k * d + d < 2\<close> the
  second index is negative, a read outside the array.
\<close>

definition swap_last2 :: "nat \<Rightarrow> nat \<Rightarrow> nat list list \<Rightarrow> build_error + nat list list" where
  "swap_last2 d k F =
     (if k * d + d < 2 then Inl OutOfBounds
      else
        let face_tmp0 = face_entry d F (k * d + d - 1);
            face_tmp1 = face_entry d F (k * d + d - 2)
        in Inr (set_face_entry d (k * d + d - 2) face_tmp0
                  (set_face_entry d (k * d + d - 1) face_tmp1 F)))"

text \<open>
  What both orientation loops do to face \<open>k\<close> on a negative determinant: exchange its last
  two vertices, then negate row \<open>k\<close> of \<open>cf\<close> and entry \<open>k\<close> of \<open>df\<close>.
\<close>

definition flip_face :: "nat \<Rightarrow> nat \<Rightarrow> face_table \<Rightarrow> build_error + face_table" where
  "flip_face d k T =
     (case T of (F, C, D) \<Rightarrow>
        (case swap_last2 d k F of
           Inl e \<Rightarrow> Inl e
         | Inr F' \<Rightarrow> Inr (F', C[k := map uminus (C ! k)], D[k := - (D ! k)])))"

subsection \<open>Perturbation and span\<close>

text \<open>
  \<open>noise k\<close> is the value of \<open>rand() / RAND_MAX\<close> at the \<open>k\<close>-th call of \<open>rand\<close>; the source
  draws one value per coordinate, point by point.
\<close>

definition perturb :: "(nat \<Rightarrow> real) \<Rightarrow> nat \<Rightarrow> (nat \<Rightarrow> nat \<Rightarrow> real) \<Rightarrow> nat \<Rightarrow> real list list" where
  "perturb noise d vertex nVert =
     map (\<lambda>i. map (\<lambda>j. vertex i j + CH_NOISE_VAL * noise (i * d + j)) [0..<d] @ [1]) [0..<nVert]"

text \<open>
  The span of axis \<open>j\<close>: \<open>max_p - min_p\<close>, both accumulated over all points from the
  starting values \<open>-2.23e13\<close> and \<open>2.23e13\<close>. The axes are checked in order and the first one
  below the threshold throws.
\<close>

definition axis_span :: "real list list \<Rightarrow> nat \<Rightarrow> real" where
  "axis_span points j =
     (let max_p = fold (\<lambda>i m. max m (points ! i ! j)) [0..<length points] (- 22300000000000);
          min_p = fold (\<lambda>i m. min m (points ! i ! j)) [0..<length points] 22300000000000
      in max_p - min_p)"

fun find_span :: "real list list \<Rightarrow> nat list \<Rightarrow> build_error + real list" where
  "find_span points [] = Inr []"
| "find_span points (j # js) =
     (let span_j = axis_span points j
      in if span_j < span_threshold then Inl SpanError
         else (case find_span points js of
                 Inl e \<Rightarrow> Inl e
               | Inr spans \<Rightarrow> Inr (span_j # spans)))"

subsection \<open>The initial simplex\<close>

text \<open>
  Face \<open>i\<close> of the simplex holds the vertices \<open>0 .. d\<close> without \<open>i\<close> (\<open>aVec[j] = j\<close>). The
  first loop stores the plane of every face; the second orients face \<open>k\<close> against vertex
  \<open>k\<close>: where the determinant is negative, the last two vertices are exchanged and the
  plane is negated.
\<close>

definition simplex_faces :: "nat \<Rightarrow> nat list list" where
  "simplex_faces d = map (\<lambda>i. filter (\<lambda>j. j \<noteq> i) [0..<d + 1]) [0..<d + 1]"

fun simplex_planes ::
  "nat \<Rightarrow> (real list \<Rightarrow> real list \<times> real) \<Rightarrow> real list list \<Rightarrow> nat list list
     \<Rightarrow> build_error + (real list \<times> real) list" where
  "simplex_planes d plane points [] = Inr []"
| "simplex_planes d plane points (f # fs) =
     (case face_plane d plane points f of
        Inl e \<Rightarrow> Inl e
      | Inr pl \<Rightarrow> (case simplex_planes d plane points fs of
                    Inl e \<Rightarrow> Inl e
                  | Inr pls \<Rightarrow> Inr (pl # pls)))"

fun orient_simplex ::
  "nat \<Rightarrow> (real list \<Rightarrow> real) \<Rightarrow> real list list \<Rightarrow> nat list \<Rightarrow> face_table
     \<Rightarrow> build_error + face_table" where
  "orient_simplex d det points [] T = Inr T"
| "orient_simplex d det points (k # ks) (F, C, D) =
     (case orientation_det det points (F ! k) k of
        Inl e \<Rightarrow> Inl e
      | Inr v \<Rightarrow>
          if v < 0
          then (case flip_face d k (F, C, D) of
                  Inl e \<Rightarrow> Inl e
                | Inr T' \<Rightarrow> orient_simplex d det points ks T')
          else orient_simplex d det points ks (F, C, D))"

definition initial_simplex ::
  "nat \<Rightarrow> (real list \<Rightarrow> real list \<times> real) \<Rightarrow> (real list \<Rightarrow> real) \<Rightarrow> real list list
     \<Rightarrow> build_error + face_table" where
  "initial_simplex d plane det points =
     (case simplex_planes d plane points (simplex_faces d) of
        Inl e \<Rightarrow> Inl e
      | Inr pls \<Rightarrow>
          orient_simplex d det points [0..<d + 1] (simplex_faces d, map fst pls, map snd pls))"

subsection \<open>The queue of remaining points\<close>

text \<open>
  The points after the simplex, ordered by decreasing relative distance from their mean
  (\<open>meanp\<close>, \<open>absdist\<close>, \<open>reldist\<close>), as indices into \<open>points\<close>; \<open>spans\<close> is the array
  \<open>span\<close> of the source.
\<close>

definition initial_pleft :: "nat \<Rightarrow> real list list \<Rightarrow> real list \<Rightarrow> nat list" where
  "initial_pleft d points spans =
     (let nVert = length points;
          meanp = map (\<lambda>j. fold (\<lambda>i m. m + points ! i ! j) [d + 1..<nVert] 0
                              / real (nVert - d - 1)) [0..<d];
          absdist = map (\<lambda>i. map (\<lambda>j. (points ! i ! j - meanp ! j) / spans ! j) [0..<d])
                        [d + 1..<nVert];
          reldist = map (\<lambda>a. fold (\<lambda>j s. s + (a ! j)\<^sup>2) [0..<d] 0) absdist;
          ind = sort_float reldist
      in map (\<lambda>x. x + d + 1) ind)"

subsection \<open>One iteration of the main loop\<close>

text \<open>
  The visibility flags of the popped point \<open>i\<close>: \<open>points_cf[j] + df[j] > 0\<close>, where
  \<open>points_cf[j]\<close> is the product of the point with row \<open>j\<close> of \<open>cf\<close>.
\<close>

definition visible_ind :: "nat \<Rightarrow> real list \<Rightarrow> hull_state \<Rightarrow> bool list" where
  "visible_ind d points_s st =
     map (\<lambda>j. dot d points_s (cf st ! j) + df st ! j > 0) [0..<nFaces st]"

text \<open>
  The horizon: for every visible face \<open>vis\<close>, in order, and every non-visible face \<open>k\<close>, in
  order, that shares exactly \<open>d - 1\<close> entries with it (\<open>f0_sum == d - 1\<close>), the ridge made
  of the flagged entries of the non-visible face.
\<close>

definition horizon_of :: "nat \<Rightarrow> nat list list \<Rightarrow> nat list \<Rightarrow> nat list list \<Rightarrow> nat list list" where
  "horizon_of d fcs visible nonvisible_faces =
     concat (map (\<lambda>vis.
        let face_s = sort_int (fcs ! vis);
            f0 = map (\<lambda>g. ismember g face_s) nonvisible_faces;
            u = filter (\<lambda>k. int (sum_list (f0 ! k)) = int d - 1) [0..<length nonvisible_faces]
        in map (\<lambda>k. map fst (filter (\<lambda>(g, fl). fl \<noteq> 0) (zip (nonvisible_faces ! k) (f0 ! k)))) u)
      visible)"

text \<open>
  Adding one face per horizon ridge, closed with the point \<open>i\<close>, with its plane. The returned
  flag is \<open>ERROR\<close>: as soon as the face count exceeds \<open>CH_MAX_NUM_FACES\<close> the loop stops with
  \<open>nFaces = 0\<close>.
\<close>

fun add_faces ::
  "nat \<Rightarrow> (real list \<Rightarrow> real list \<times> real) \<Rightarrow> real list list \<Rightarrow> nat \<Rightarrow> nat list list
     \<Rightarrow> nat list list \<times> real list list \<times> real list
     \<Rightarrow> build_error + (nat list list \<times> real list list \<times> real list) \<times> bool" where
  "add_faces d plane points i [] fcd = Inr (fcd, False)"
| "add_faces d plane points i (h # hs) (F, C, D) =
     (let newface = take (d - 1) h @ [i]
      in case face_plane d plane points newface of
           Inl e \<Rightarrow> Inl e
         | Inr (cfi, dfi) \<Rightarrow>
             if length (F @ [newface]) > CH_MAX_NUM_FACES then Inr (([], [], []), True)
             else add_faces d plane points i hs (F @ [newface], C @ [cfi], D @ [dfi]))"

text \<open>
  The search for a reference point that is not coplanar with face \<open>f\<close>: \<open>pp\<close> holds the
  candidates, \<open>index\<close> the next one to try. The result is the first nonzero determinant and
  the value of \<open>index\<close> behind it. Reading \<open>pp[index]\<close> beyond its \<open>num_p\<close> entries is out of
  bounds.
\<close>

function while_coplanar ::
  "(real list \<Rightarrow> real) \<Rightarrow> real list list \<Rightarrow> nat list \<Rightarrow> nat list \<Rightarrow> nat
     \<Rightarrow> build_error + real \<times> nat" where
  "while_coplanar det points f pp index =
     (if index < length pp
      then (case orientation_det det points f (pp ! index) of
              Inl e \<Rightarrow> Inl e
            | Inr detA \<Rightarrow> if detA = 0 then while_coplanar det points f pp (index + 1)
                          else Inr (detA, index + 1))
      else Inl OutOfBounds)"
  by pat_completeness auto
termination
  by (relation "measure (\<lambda>(det, points, f, pp, index). length pp - index)") auto

declare while_coplanar.simps [simp del]

text \<open>
  Orienting the new face in row \<open>k\<close>. The candidates \<open>pp\<close> are the numbers below \<open>nFaces\<close> that
  are not vertices of the face. On a negative determinant the last two vertices are
  exchanged, the plane is negated, and the determinant is taken again against \<open>pp[index]\<close>,
  \<open>index\<close> having moved on; the face cannot be oriented when that determinant is not
  positive.
\<close>

definition orient_new_face ::
  "nat \<Rightarrow> (real list \<Rightarrow> real) \<Rightarrow> real list list \<Rightarrow> nat \<Rightarrow> nat \<Rightarrow> face_table
     \<Rightarrow> build_error + face_table" where
  "orient_new_face d det points nF k T =
     (case T of (F, C, D) \<Rightarrow>
        let face_s = sort_int (F ! k);
            hVec = [0..<nF];
            hVec_mem_face = ismember hVec face_s;
            pp = map fst (filter (\<lambda>(h, m). m = 0) (zip hVec hVec_mem_face))
        in case while_coplanar det points (F ! k) pp 0 of
             Inl e \<Rightarrow> Inl e
           | Inr (detA, index) \<Rightarrow>
               if detA < 0
               then (case flip_face d k (F, C, D) of
                       Inl e \<Rightarrow> Inl e
                     | Inr (F', C', D') \<Rightarrow>
                         if index < length pp
                         then (case orientation_det det points (F' ! k) (pp ! index) of
                                 Inl e \<Rightarrow> Inl e
                               | Inr detA' \<Rightarrow>
                                   if detA' \<le> 0 then Inl OrientationError
                                   else Inr (F', C', D'))
                         else Inl OutOfBounds)
               else Inr (F, C, D))"

fun orient_new_faces ::
  "nat \<Rightarrow> (real list \<Rightarrow> real) \<Rightarrow> real list list \<Rightarrow> nat \<Rightarrow> nat list \<Rightarrow> face_table
     \<Rightarrow> build_error + face_table" where
  "orient_new_faces d det points nF [] T = Inr T"
| "orient_new_faces d det points nF (k # ks) T =
     (case orient_new_face d det points nF k T of
        Inl e \<Rightarrow> Inl e
      | Inr T' \<Rightarrow> orient_new_faces d det points nF ks T')"

text \<open>
  The body of the \<open>while (num_pleft > 0)\<close> loop: pop the first point of the queue, flag
  the faces that see it, and, if there are any, build the horizon, delete the visible faces,
  add the new faces from row \<open>start\<close> on and orient the rows \<open>start .. nFaces - 1\<close>.
\<close>

definition iteration ::
  "nat \<Rightarrow> (real list \<Rightarrow> real list \<times> real) \<Rightarrow> (real list \<Rightarrow> real) \<Rightarrow> real list list
     \<Rightarrow> hull_state \<Rightarrow> build_error + hull_state" where
  "iteration d plane det points st =
     (case pleft st of
        [] \<Rightarrow> Inr st
      | i # rest \<Rightarrow>
          (case point_row points i of
             Inl e \<Rightarrow> Inl e
           | Inr row \<Rightarrow>
               let points_s = take d row;
                   vis_ind = visible_ind d points_s st;
                   num_visible_ind = length (filter (\<lambda>b. b) vis_ind)
               in if num_visible_ind = 0 then Inr (st\<lparr>pleft := rest\<rparr>)
                  else
                    let visible = filter (\<lambda>j. vis_ind ! j) [0..<nFaces st];
                        keep = filter (\<lambda>j. \<not> vis_ind ! j) [0..<nFaces st];
                        nonvisible_faces = map (\<lambda>j. faces st ! j) keep;
                        horizon = horizon_of d (faces st) visible nonvisible_faces;
                        start = length nonvisible_faces
                    in case add_faces d plane points i horizon
                              (nonvisible_faces, map (\<lambda>j. cf st ! j) keep, map (\<lambda>j. df st ! j) keep) of
                         Inl e \<Rightarrow> Inl e
                       | Inr ((F, C, D), err) \<Rightarrow>
                           (case orient_new_faces d det points (length F) [start..<length F]
                                   (F, C, D) of
                              Inl e \<Rightarrow> Inl e
                            | Inr (F', C', D') \<Rightarrow>
                                Inr \<lparr>faces = F', cf = C', df = D', pleft = rest, ERROR = err\<rparr>)))"

lemma iteration_pleft:
  assumes "iteration d plane det points st = Inr st'" "pleft st \<noteq> []"
  shows "pleft st' = tl (pleft st)"
proof -
  obtain i rest where p: "pleft st = i # rest"
    using assms(2) by (cases "pleft st") auto
  show ?thesis
    using assms(1) unfolding iteration_def p
    by (auto simp: Let_def p split: sum.splits if_splits prod.splits)
qed

subsection \<open>The main loop and the two builders\<close>

text \<open>
  \<open>while (num_pleft > 0)\<close>, left early when an iteration has set \<open>ERROR\<close>.
\<close>

function main_loop ::
  "nat \<Rightarrow> (real list \<Rightarrow> real list \<times> real) \<Rightarrow> (real list \<Rightarrow> real) \<Rightarrow> real list list
     \<Rightarrow> hull_state \<Rightarrow> build_error + hull_state" where
  "main_loop d plane det points st =
     (if pleft st = [] then Inr st
      else (case iteration d plane det points st of
              Inl e \<Rightarrow> Inl e
            | Inr st' \<Rightarrow> if ERROR st' then Inr st' else main_loop d plane det points st'))"
  by pat_completeness auto
termination
proof (relation "measure (\<lambda>(d, plane, det, points, st). length (pleft st))")
  show "wf (measure (\<lambda>(d, plane, det, points, st). length (pleft st)))"
    by simp
next
  fix d :: nat and plane :: "real list \<Rightarrow> real list \<times> real" and det :: "real list \<Rightarrow> real"
    and points :: "real list list" and st x2 :: hull_state
  assume "pleft st \<noteq> []" "iteration d plane det points st = Inr x2"
  then have "pleft x2 = tl (pleft st)" by (simp add: iteration_pleft)
  with \<open>pleft st \<noteq> []\<close>
  show "((d, plane, det, points, x2), (d, plane, det, points, st))
          \<in> measure (\<lambda>(d, plane, det, points, st). length (pleft st))"
    by (cases "pleft st") simp_all
qed

declare main_loop.simps [simp del]

text \<open>
  The part the two builders share word for word, from the span check to the end of the
  main loop, with the plane routine and the determinant as parameters.
\<close>

definition hull_engine ::
  "nat \<Rightarrow> (real list \<Rightarrow> real list \<times> real) \<Rightarrow> (real list \<Rightarrow> real) \<Rightarrow> real list list
     \<Rightarrow> build_error + hull_state" where
  "hull_engine d plane det points =
     (case find_span points [0..<d] of
        Inl e \<Rightarrow> Inl e
      | Inr spans \<Rightarrow>
          (case initial_simplex d plane det points of
             Inl e \<Rightarrow> Inl e
           | Inr (F, C, D) \<Rightarrow>
               main_loop d plane det points
                 \<lparr>faces = F, cf = C, df = D,
                  pleft = initial_pleft d points spans, ERROR = False\<rparr>))"

text \<open>
  The state after \<open>n\<close> further passes through the loop body, none of which has set \<open>ERROR\<close>;
  \<open>None\<close> when the loop does not make that many.
\<close>

fun loop_prefix ::
  "nat \<Rightarrow> (real list \<Rightarrow> real list \<times> real) \<Rightarrow> (real list \<Rightarrow> real) \<Rightarrow> real list list
     \<Rightarrow> nat \<Rightarrow> hull_state \<Rightarrow> hull_state option" where
  "loop_prefix d plane det points 0 st = Some st"
| "loop_prefix d plane det points (Suc n) st =
     (if pleft st = [] then None
      else (case iteration d plane det points st of
              Inl e \<Rightarrow> None
            | Inr st' \<Rightarrow> if ERROR st' then None else loop_prefix d plane det points n st'))"

text \<open>
  The run of the builder body on \<open>points\<close> trips the facet ceiling in pass \<open>n + 1\<close> of the
  main loop: the span check and the initial simplex succeed, \<open>n\<close> passes leave \<open>ERROR\<close> unset,
  and the next pass sets it.
\<close>

definition ceiling_trips ::
  "nat \<Rightarrow> (real list \<Rightarrow> real list \<times> real) \<Rightarrow> (real list \<Rightarrow> real) \<Rightarrow> real list list
     \<Rightarrow> nat \<Rightarrow> bool" where
  "ceiling_trips d plane det points n =
     (case find_span points [0..<d] of
        Inl e \<Rightarrow> False
      | Inr spans \<Rightarrow>
          (case initial_simplex d plane det points of
             Inl e \<Rightarrow> False
           | Inr (F, C, D) \<Rightarrow>
               (case loop_prefix d plane det points n
                       \<lparr>faces = F, cf = C, df = D,
                        pleft = initial_pleft d points spans, ERROR = False\<rparr> of
                  None \<Rightarrow> False
                | Some s \<Rightarrow>
                    pleft s \<noteq> [] \<and>
                    (case iteration d plane det points s of
                       Inl e \<Rightarrow> False
                     | Inr s' \<Rightarrow> ERROR s'))))"

text \<open>
  \<open>convhull_3d_build\<close>. The array \<open>in_vertices\<close> and its length \<open>nVert\<close> are one list of
  vertices (\<open>ch_vertex\<close> is an array of three coordinates); a \<open>NULL\<close> array is not modelled.
\<close>

type_synonym ch_vertex = "real \<times> real \<times> real"

definition vertex_coord :: "ch_vertex \<Rightarrow> nat \<Rightarrow> real" where
  "vertex_coord v j = (case v of (x, y, z) \<Rightarrow> if j = 0 then x else if j = 1 then y else z)"

text \<open>The output block: \<open>NULL\<close> and 0 on \<open>ERROR\<close>, a copy of \<open>faces\<close> and \<open>nFaces\<close> otherwise.\<close>

definition output_3d :: "hull_state \<Rightarrow> ch_out" where
  "output_3d st =
     (if ERROR st then \<lparr>out_faces = None, nOut_faces = 0\<rparr>
      else \<lparr>out_faces = Some (faces st), nOut_faces = nFaces st\<rparr>)"

definition convhull_3d_build :: "(nat \<Rightarrow> real) \<Rightarrow> ch_vertex list \<Rightarrow> build_error + ch_out" where
  "convhull_3d_build noise in_vertices =
     (let nVert = length in_vertices
      in if nVert < 3 then Inr \<lparr>out_faces = None, nOut_faces = 0\<rparr>
         else
           let d = 3;
               points = perturb noise d (\<lambda>i j. vertex_coord (in_vertices ! i) j) nVert
           in case hull_engine d plane_3d det_4x4 points of
                Inl e \<Rightarrow> Inl e
              | Inr st \<Rightarrow> Inr (output_3d st))"

text \<open>
  \<open>convhull_nd_build\<close>. \<open>in_vertices\<close> is the flat \<open>nVert x d\<close> array; the caller supplies
  \<open>nVert * d\<close> values. \<open>det_nd\<close> is the choice between \<open>det_4x4\<close> (for \<open>d == 3\<close>) and \<open>det_NxN\<close>
  that the source makes at each orientation test.
\<close>

definition output_nd :: "hull_state \<Rightarrow> chnd_out" where
  "output_nd st =
     (if ERROR st
      then \<lparr>out_faces = None, nOut_faces = 0, out_cf = None, out_df = None\<rparr>
      else \<lparr>out_faces = Some (faces st), nOut_faces = nFaces st,
            out_cf = Some (cf st), out_df = Some (df st)\<rparr>)"

definition det_nd :: "nat \<Rightarrow> real list \<Rightarrow> real" where
  "det_nd d A = (if d = 3 then det_4x4 A else det_NxN A (d + 1))"

definition convhull_nd_build ::
  "(nat \<Rightarrow> real) \<Rightarrow> real list \<Rightarrow> nat \<Rightarrow> nat \<Rightarrow> build_error + chnd_out" where
  "convhull_nd_build noise in_vertices nVert d =
     (if \<not> d \<le> CONVHULL_ND_MAX_DIMENSIONS then Inl AssertionError
      else if nVert \<le> d
      then Inr \<lparr>out_faces = None, nOut_faces = 0, out_cf = None, out_df = None\<rparr>
      else
        let points = perturb noise d (\<lambda>i j. in_vertices ! (i * d + j)) nVert
        in case hull_engine d (plane_nd d) (det_nd d) points of
             Inl e \<Rightarrow> Inl e
           | Inr st \<Rightarrow> Inr (output_nd st))"

section \<open>Delaunay triangulation by lifting\<close>

text \<open>
  The caller's two output variables: \<open>Mesh\<close> (a pointer, \<open>None\<close> for \<open>NULL\<close>, otherwise the
  rows of the array it points to) and \<open>nMesh\<close>. The call receives their prior contents and
  returns the new ones.
\<close>

record mesh_io =
  Mesh :: "nat list list option"
  nMesh :: nat

text \<open>
  \<open>delaunay_nd_mesh\<close>. The first \<open>nPoints * nd\<close> values of \<open>rand\<close> perturb the lifted
  points; the hull builder draws the following ones. \<open>maxW_idx\<close> starts at \<open>-1\<close> and the
  source asserts that the search has changed it.
\<close>

definition lift_points :: "(nat \<Rightarrow> real) \<Rightarrow> real list \<Rightarrow> nat \<Rightarrow> nat \<Rightarrow> real list list" where
  "lift_points noise points nPoints nd =
     map (\<lambda>i. let row = map (\<lambda>j. points ! (i * nd + j) + (1 / 10000000) * noise (i * nd + j)) [0..<nd]
              in row @ [fold (\<lambda>j w. w + row ! j * row ! j) [0..<nd] 0])
         [0..<nPoints]"

definition find_maxW :: "real list list \<Rightarrow> nat \<Rightarrow> nat \<Rightarrow> real \<times> int" where
  "find_maxW projpoints nPoints nd =
     fold (\<lambda>i (maxVal, maxW_idx).
             if projpoints ! i ! nd > maxVal then (projpoints ! i ! nd, int i)
             else (maxVal, maxW_idx))
          [0..<nPoints] (- 22300000000000, - 1)"

definition synthetic_point :: "real list list \<Rightarrow> nat \<Rightarrow> nat \<Rightarrow> real list" where
  "synthetic_point projpoints maxW_idx nd =
     (let w0 = projpoints ! maxW_idx ! nd;
          p0 = map (\<lambda>j. projpoints ! maxW_idx ! j) [0..<nd];
          w_optimal = w0 - fold (\<lambda>j w. w + 2 * (p0 ! j)\<^sup>2) [0..<nd] 0;
          w_optimal2 = w_optimal - 1000 * \<bar>w_optimal\<bar>
      in (replicate (nd + 1) 0)[nd := w_optimal2])"

text \<open>\<open>array_of\<close> reads an output array of the hull builder, \<open>NULL\<close> holding no row.\<close>

definition array_of :: "'a list option \<Rightarrow> 'a list" where
  "array_of a = (case a of None \<Rightarrow> [] | Some rows \<Rightarrow> rows)"

definition delaunay_nd_mesh ::
  "(nat \<Rightarrow> real) \<Rightarrow> real list \<Rightarrow> nat \<Rightarrow> nat \<Rightarrow> mesh_io \<Rightarrow> build_error + mesh_io" where
  "delaunay_nd_mesh noise points nPoints nd io =
     (let projpoints = lift_points noise points nPoints nd
      in case convhull_nd_build (\<lambda>k. noise (nPoints * nd + k)) (concat projpoints) nPoints (nd + 1) of
           Inl e \<Rightarrow> Inl e
         | Inr res \<Rightarrow>
             let nHullFaces = nOut_faces res;
                 hullfaces = array_of (out_faces res);
                 hull_cf = array_of (out_cf res);
                 hull_df = array_of (out_df res);
                 maxW_idx = snd (find_maxW projpoints nPoints nd)
             in if maxW_idx = - 1 then Inl AssertionError
                else
                  let p = synthetic_point projpoints (nat maxW_idx) nd;
                      visible = map (\<lambda>i. dot (nd + 1) (hull_cf ! i) p + hull_df ! i) [0..<nHullFaces];
                      nVisible = length (filter (\<lambda>v. v > 0) visible)
                  in if nVisible > 0
                     then Inr (io\<lparr>Mesh := Some (map (\<lambda>i. hullfaces ! i)
                                                   (filter (\<lambda>i. visible ! i > 0) [0..<nHullFaces])),
                                 nMesh := nVisible\<rparr>)
                     else Inr (io\<lparr>nMesh := nVisible\<rparr>))"

text \<open>
  The words of the specification for the mesh: the facets of the lifted hull that see the
  synthetic point \<open>p\<close>, in hull order.
\<close>

definition lower_hull_faces ::
  "nat \<Rightarrow> real list \<Rightarrow> nat list list \<Rightarrow> real list list \<Rightarrow> real list \<Rightarrow> nat list list" where
  "lower_hull_faces nd p F C D =
     map fst (filter (\<lambda>(f, c, dk). dot (nd + 1) c p + dk > 0) (zip F (zip C D)))"

section \<open>Invariants of the hull state\<close>

text \<open>
  The three arrays of the state have \<open>nFaces\<close> rows each.
\<close>

definition aligned :: "hull_state \<Rightarrow> bool" where
  "aligned st \<longleftrightarrow> length (cf st) = length (faces st) \<and> length (df st) = length (faces st)"

text \<open>
  A face is valid for \<open>n\<close> points in dimension \<open>d\<close> when it has \<open>d\<close> pairwise distinct
  entries below \<open>n\<close>. The facet table is well formed when every face is valid and holds no
  point that is still queued, and the queue has no duplicates and only entries below \<open>n\<close>.
\<close>

definition valid_face :: "nat \<Rightarrow> nat \<Rightarrow> nat list \<Rightarrow> bool" where
  "valid_face d n f \<longleftrightarrow> length f = d \<and> distinct f \<and> (\<forall>v \<in> set f. v < n)"

definition faces_inv :: "nat \<Rightarrow> nat \<Rightarrow> hull_state \<Rightarrow> bool" where
  "faces_inv d n st \<longleftrightarrow>
     (\<forall>f \<in> set (faces st). valid_face d n f \<and> set f \<inter> set (pleft st) = {}) \<and>
     distinct (pleft st) \<and> (\<forall>v \<in> set (pleft st). v < n)"

text \<open>
  For the orientation loops, which work on the three arrays: the row counts of a table, and
  a table all of whose faces are valid and avoid the set \<open>S\<close>.
\<close>

definition table_lengths :: "face_table \<Rightarrow> nat \<times> nat \<times> nat" where
  "table_lengths T = (case T of (F, C, D) \<Rightarrow> (length F, length C, length D))"

definition rows_ok :: "nat \<Rightarrow> nat \<Rightarrow> nat set \<Rightarrow> face_table \<Rightarrow> bool" where
  "rows_ok d n S T \<longleftrightarrow> (\<forall>f \<in> set (fst T). valid_face d n f \<and> set f \<inter> S = {})"

text \<open>
  The coordinates of a list of 3-D vertices as the flat array the N-D builder takes.
\<close>

definition flat_vertices :: "ch_vertex list \<Rightarrow> real list" where
  "flat_vertices vs = concat (map (\<lambda>(x, y, z). [x, y, z]) vs)"

section \<open>Concrete inputs\<close>

text \<open>
  Inputs on which the model is evaluated below: the working points of a tetrahedron with a
  fifth point inside it, the facet table of that tetrahedron, and a facet table of 50000
  rows, one of which the fifth point of \<open>ceiling_points\<close> sees.
\<close>

definition interior_points :: "real list list" where
  "interior_points =
     [[0, 0, 0, 1], [1, 0, 0, 1], [0, 1, 0, 1], [0, 0, 2, 1], [1/10, 1/10, 1/10, 1]]"

definition tetra_state :: hull_state where
  "tetra_state =
     \<lparr>faces = [[1, 2, 3], [0, 3, 2], [0, 1, 3], [0, 2, 1]],
      cf = [[2/3, 2/3, 1/3], [- 1, 0, 0], [0, - 1, 0], [0, 0, - 1]],
      df = [- 2/3, 0, 0, 0], pleft = [4], ERROR = False\<rparr>"

definition ceiling_points :: "real list list" where
  "ceiling_points =
     [[0, 0, 0, 1], [1, 0, 0, 1], [0, 1, 0, 1], [0, 0, 2, 1], [1/10, - 1, 1/10, 1]]"

definition ceiling_state :: hull_state where
  "ceiling_state =
     \<lparr>faces = [0, 1, 3] # replicate 49999 [0, 2, 1],
      cf = [0, - 1, 0] # replicate 49999 [0, 0, - 1],
      df = 0 # replicate 49999 0, pleft = [4], ERROR = False\<rparr>"

text \<open>
  Four points of the plane, their lifted points, and the hull of the lifted points, for the
  Delaunay reduction.
\<close>

definition delaunay_points :: "real list" where
  "delaunay_points = [1/4, - 3/4, 1, - 1/2, 1, 3/2, 0, 0]"

definition lifted_points :: "real list list" where
  "lifted_points = [[1/4, - 3/4, 5/8], [1, - 1/2, 5/4], [1, 3/2, 13/4], [0, 0, 0]]"

definition lifted_hull :: chnd_out where
  "lifted_hull =
     \<lparr>out_faces = Some [[1, 3, 2], [0, 2, 3], [0, 3, 1], [0, 1, 2]], nOut_faces = 4,
      out_cf = Some [[7/9, 4/9, - 4/9], [- 18/19, - 1/19, 6/19], [2/3, - 1/3, - 2/3],
                     [- 1/3, - 2/3, 2/3]],
      out_df = Some [0, 0, 0, - 5/6]\<rparr>"

section \<open>Properties of the determinant routines\<close>

declare det_NxN.simps [simp del]

lemma fold_signed_sum:
  "fold (\<lambda>i (s, sg). (s + sg * f i, sg * (- 1))) [0..<n] (s0, sg0) =
     (s0 + sg0 * (\<Sum>i\<leftarrow>[0..<n]. (- 1) ^ i * f i), sg0 * (- 1) ^ n :: real)"
  by (induction n) (simp_all add: algebra_simps)

lemma det_NxN_Suc:
  "det_NxN m (Suc n) =
     (\<Sum>i\<leftarrow>[0..<Suc n]. (- 1) ^ i * m ! i * det_NxN (createSubMatrix m (Suc n) i) n)"
proof -
  have "det_NxN m (Suc n) =
    fst (fold (\<lambda>i (s, sg). (s + sg * (m ! i * det_NxN (createSubMatrix m (Suc n) i) n), sg * (- 1)))
           [0..<Suc n] (0, 1))"
    by (subst det_NxN.simps) (simp add: mult.assoc del: upt_Suc)
  then show ?thesis
    by (simp only: fold_signed_sum) (simp add: mult.assoc)
qed

lemma det_NxN_0: "det_NxN m 0 = 1"
  by (simp add: det_NxN.simps)

lemma filter_neq_upt:
  assumes "i < n"
  shows "filter (\<lambda>t. t \<noteq> i) [0..<n] = [0..<i] @ [Suc i..<n]"
proof -
  have "[0..<n] = [0..<i] @ [i..<n]"
    using assms upt_add_eq_append[of 0 i "n - i"] by simp
  also have "[i..<n] = i # [Suc i..<n]"
    using assms by (simp add: upt_conv_Cons)
  finally have "[0..<n] = [0..<i] @ i # [Suc i..<n]" .
  moreover have "filter (\<lambda>t. t \<noteq> i) [0..<i] = [0..<i]"
    by (rule filter_True) simp
  moreover have "filter (\<lambda>t. t \<noteq> i) [Suc i..<n] = [Suc i..<n]"
    by (rule filter_True) simp
  ultimately show ?thesis by simp
qed

lemma delete_col_map_nth:
  assumes "length r = n" "i < n"
  shows "map (\<lambda>t. r ! t) (filter (\<lambda>t. t \<noteq> i) [0..<n]) = delete_col i r"
proof -
  have a: "map (\<lambda>t. r ! t) [0..<i] = take i r"
    using assms by (intro nth_equalityI) simp_all
  have b: "map (\<lambda>t. r ! t) [Suc i..<n] = drop (Suc i) r"
    using assms by (intro nth_equalityI) simp_all
  show ?thesis
    using assms by (simp add: filter_neq_upt a b delete_col_def)
qed

lemma length_delete_col: "i < length r \<Longrightarrow> length (delete_col i r) = length r - 1"
  by (simp add: delete_col_def)

lemma upt_shift: "[k..<k + n] = map (\<lambda>t. k + t) [0..<n]"
  by (induction n) simp_all

lemma filter_mod_block:
  assumes "i < N"
  shows "filter (\<lambda>j. j mod N \<noteq> i) [k * N..<k * N + N] = map (\<lambda>t. k * N + t) (filter (\<lambda>t. t \<noteq> i) [0..<N])"
proof -
  have "filter (\<lambda>j. j mod N \<noteq> i) (map (\<lambda>t. k * N + t) [0..<N]) =
        map (\<lambda>t. k * N + t) (filter (\<lambda>t. t \<noteq> i) [0..<N])"
    unfolding filter_map by (rule arg_cong[where f = "map _"], rule filter_cong) (auto simp: comp_def)
  then show ?thesis by (simp add: upt_shift[of "k * N" N])
qed

lemma concat_nth_block:
  assumes "\<forall>r \<in> set rows. length r = N" "k < length rows" "t < N"
  shows "concat rows ! (k * N + t) = rows ! k ! t"
  using assms
proof (induction rows arbitrary: k)
  case Nil
  then show ?case by simp
next
  case (Cons r rows)
  show ?case
  proof (cases k)
    case 0
    with Cons.prems show ?thesis by (simp add: nth_append)
  next
    case (Suc k')
    with Cons.prems have "concat rows ! (k' * N + t) = rows ! k' ! t"
      by (intro Cons.IH) auto
    with Suc Cons.prems show ?thesis by (simp add: nth_append add.assoc)
  qed
qed

text \<open>All rows from row lo on, with column i removed.\<close>
lemma submatrix_rows:
  assumes "\<forall>r \<in> set rows. length r = N" "i < N" "lo \<le> length rows"
  shows "map (\<lambda>j. concat rows ! j) (filter (\<lambda>j. j mod N \<noteq> i) [lo * N..<length rows * N]) =
         concat (map (delete_col i) (drop lo rows))"
  using assms(3)
proof (induction "length rows - lo" arbitrary: lo)
  case 0
  then show ?case by simp
next
  case (Suc n)
  then have lo: "lo < length rows" by simp
  have "map (\<lambda>j. concat rows ! j) (filter (\<lambda>j. j mod N \<noteq> i) [Suc lo * N..<length rows * N]) =
         concat (map (delete_col i) (drop (Suc lo) rows))"
    using Suc lo by (intro Suc.hyps(1)) simp_all
  then have IH: "map (\<lambda>j. concat rows ! j) (filter (\<lambda>j. j mod N \<noteq> i) [lo * N + N..<length rows * N]) =
         concat (map (delete_col i) (drop (Suc lo) rows))"
    by (simp add: add.commute)
  have split: "[lo * N..<length rows * N] = [lo * N..<lo * N + N] @ [lo * N + N..<length rows * N]"
  proof -
    have "Suc lo * N \<le> length rows * N" using lo by (simp add: Suc_leI mult_le_mono1 del: mult_Suc)
    then have le: "lo * N + N \<le> length rows * N" by (simp add: add.commute)
    show ?thesis
      using upt_add_eq_append[of "lo * N" "lo * N + N" "length rows * N - (lo * N + N)"] le by simp
  qed
  have blk: "map (\<lambda>j. concat rows ! j) (filter (\<lambda>j. j mod N \<noteq> i) [lo * N..<lo * N + N]) =
        delete_col i (rows ! lo)"
  proof -
    have "map (\<lambda>j. concat rows ! j) (map (\<lambda>t. lo * N + t) (filter (\<lambda>t. t \<noteq> i) [0..<N])) =
          map (\<lambda>t. rows ! lo ! t) (filter (\<lambda>t. t \<noteq> i) [0..<N])"
      using assms(1) lo by (auto simp: concat_nth_block)
    then show ?thesis
      using assms lo by (simp add: filter_mod_block delete_col_map_nth)
  qed
  have "drop lo rows = rows ! lo # drop (Suc lo) rows"
    using lo by (simp add: Cons_nth_drop_Suc)
  then show ?case
    by (simp only: split filter_append map_append blk IH) simp
qed

lemma createSubMatrix_concat:
  assumes "square_matrix (Suc n) (r # rs)" "i < Suc n"
  shows "createSubMatrix (concat (r # rs)) (Suc n) i = concat (map (delete_col i) rs)"
proof -
  have "length (r # rs) = Suc n" "\<forall>x \<in> set (r # rs). length x = Suc n"
    using assms by (auto simp: square_matrix_def)
  then show ?thesis
    using submatrix_rows[of "r # rs" "Suc n" i 1] assms(2)
    by (simp add: createSubMatrix_def)
qed

lemma square_matrix_minor:
  assumes "square_matrix (Suc n) (r # rs)" "i < Suc n"
  shows "square_matrix n (map (delete_col i) rs)"
  using assms by (auto simp: square_matrix_def length_delete_col)

lemma det_NxN_cofactor:
  "square_matrix d rows \<Longrightarrow> det_NxN (concat rows) d = det_cofactor rows"
proof (induction d arbitrary: rows)
  case 0
  then show ?case by (simp add: square_matrix_def det_NxN_0)
next
  case (Suc n)
  then obtain r rs where rows: "rows = r # rs" and len: "length rs = n" and lr: "length r = Suc n"
    by (cases rows) (auto simp: square_matrix_def)
  have "det_NxN (concat rows) (Suc n) =
     (\<Sum>i\<leftarrow>[0..<Suc n]. (- 1) ^ i * concat rows ! i * det_NxN (createSubMatrix (concat rows) (Suc n) i) n)"
    by (rule det_NxN_Suc)
  also have "\<dots> = (\<Sum>i\<leftarrow>[0..<Suc n]. (- 1) ^ i * r ! i * det_cofactor (map (delete_col i) rs))"
  proof (rule arg_cong[where f = sum_list], rule map_cong[OF refl])
    fix i assume "i \<in> set [0..<Suc n]"
    then have i: "i < Suc n" by auto
    have "createSubMatrix (concat rows) (Suc n) i = concat (map (delete_col i) rs)"
      using createSubMatrix_concat[of n r rs i] Suc.prems i rows by simp
    moreover have "det_NxN (concat (map (delete_col i) rs)) n = det_cofactor (map (delete_col i) rs)"
      using square_matrix_minor[of n r rs i] Suc.prems i rows by (intro Suc.IH) simp
    moreover have "concat rows ! i = r ! i"
      using i lr rows by (simp add: nth_append)
    ultimately show "(- 1) ^ i * concat rows ! i * det_NxN (createSubMatrix (concat rows) (Suc n) i) n =
        (- 1) ^ i * r ! i * det_cofactor (map (delete_col i) rs)" by simp
  qed
  finally show ?case using rows len by simp
qed


lemma det_NxN_pos:
  "0 < d \<Longrightarrow> det_NxN m d =
     (\<Sum>i\<leftarrow>[0..<d]. (- 1) ^ i * m ! i * det_NxN (createSubMatrix m d i) (d - 1))"
  using det_NxN_Suc[of m "d - 1"] by simp

lemma createSubMatrix_2_0: "createSubMatrix m 2 0 = [m ! 3]"
  unfolding createSubMatrix_def
  by (rule trans[OF arg_cong[where f = "map _"]], code_simp) simp

lemma createSubMatrix_2_1: "createSubMatrix m 2 (Suc 0) = [m ! 2]"
  unfolding createSubMatrix_def
  by (rule trans[OF arg_cong[where f = "map _"]], code_simp) simp

lemmas createSubMatrix_2 = createSubMatrix_2_0 createSubMatrix_2_1

lemma upt_0_2: "[0..<2] = [0, Suc 0]"
  by code_simp

lemma createSubMatrix_3_0: "createSubMatrix m 3 0 = [m ! 4, m ! 5, m ! 7, m ! 8]"
  unfolding createSubMatrix_def
  by (rule trans[OF arg_cong[where f = "map _"]], code_simp) simp

lemma createSubMatrix_3_1: "createSubMatrix m 3 (Suc 0) = [m ! 3, m ! 5, m ! 6, m ! 8]"
  unfolding createSubMatrix_def
  by (rule trans[OF arg_cong[where f = "map _"]], code_simp) simp

lemma createSubMatrix_3_2: "createSubMatrix m 3 2 = [m ! 3, m ! 4, m ! 6, m ! 7]"
  unfolding createSubMatrix_def
  by (rule trans[OF arg_cong[where f = "map _"]], code_simp) simp

lemmas createSubMatrix_3 = createSubMatrix_3_0 createSubMatrix_3_1 createSubMatrix_3_2

lemma upt_0_3: "[0..<3] = [0, 1, 2]"
  by code_simp

lemma createSubMatrix_4_0: "createSubMatrix m 4 0 = [m ! 5, m ! 6, m ! 7, m ! 9, m ! 10, m ! 11, m ! 13, m ! 14, m ! 15]"
  unfolding createSubMatrix_def
  by (rule trans[OF arg_cong[where f = "map _"]], code_simp) simp

lemma createSubMatrix_4_1: "createSubMatrix m 4 (Suc 0) = [m ! 4, m ! 6, m ! 7, m ! 8, m ! 10, m ! 11, m ! 12, m ! 14, m ! 15]"
  unfolding createSubMatrix_def
  by (rule trans[OF arg_cong[where f = "map _"]], code_simp) simp

lemma createSubMatrix_4_2: "createSubMatrix m 4 2 = [m ! 4, m ! 5, m ! 7, m ! 8, m ! 9, m ! 11, m ! 12, m ! 13, m ! 15]"
  unfolding createSubMatrix_def
  by (rule trans[OF arg_cong[where f = "map _"]], code_simp) simp

lemma createSubMatrix_4_3: "createSubMatrix m 4 3 = [m ! 4, m ! 5, m ! 6, m ! 8, m ! 9, m ! 10, m ! 12, m ! 13, m ! 14]"
  unfolding createSubMatrix_def
  by (rule trans[OF arg_cong[where f = "map _"]], code_simp) simp

lemmas createSubMatrix_4 = createSubMatrix_4_0 createSubMatrix_4_1 createSubMatrix_4_2 createSubMatrix_4_3

lemma upt_0_4: "[0..<4] = [0, 1, 2, 3]"
  by code_simp

lemma createSubMatrix_5_0: "createSubMatrix m 5 0 = [m ! 6, m ! 7, m ! 8, m ! 9, m ! 11, m ! 12, m ! 13, m ! 14, m ! 16, m ! 17, m ! 18, m ! 19, m ! 21, m ! 22, m ! 23, m ! 24]"
  unfolding createSubMatrix_def
  by (rule trans[OF arg_cong[where f = "map _"]], code_simp) simp

lemma createSubMatrix_5_1: "createSubMatrix m 5 (Suc 0) = [m ! 5, m ! 7, m ! 8, m ! 9, m ! 10, m ! 12, m ! 13, m ! 14, m ! 15, m ! 17, m ! 18, m ! 19, m ! 20, m ! 22, m ! 23, m ! 24]"
  unfolding createSubMatrix_def
  by (rule trans[OF arg_cong[where f = "map _"]], code_simp) simp

lemma createSubMatrix_5_2: "createSubMatrix m 5 2 = [m ! 5, m ! 6, m ! 8, m ! 9, m ! 10, m ! 11, m ! 13, m ! 14, m ! 15, m ! 16, m ! 18, m ! 19, m ! 20, m ! 21, m ! 23, m ! 24]"
  unfolding createSubMatrix_def
  by (rule trans[OF arg_cong[where f = "map _"]], code_simp) simp

lemma createSubMatrix_5_3: "createSubMatrix m 5 3 = [m ! 5, m ! 6, m ! 7, m ! 9, m ! 10, m ! 11, m ! 12, m ! 14, m ! 15, m ! 16, m ! 17, m ! 19, m ! 20, m ! 21, m ! 22, m ! 24]"
  unfolding createSubMatrix_def
  by (rule trans[OF arg_cong[where f = "map _"]], code_simp) simp

lemma createSubMatrix_5_4: "createSubMatrix m 5 4 = [m ! 5, m ! 6, m ! 7, m ! 8, m ! 10, m ! 11, m ! 12, m ! 13, m ! 15, m ! 16, m ! 17, m ! 18, m ! 20, m ! 21, m ! 22, m ! 23]"
  unfolding createSubMatrix_def
  by (rule trans[OF arg_cong[where f = "map _"]], code_simp) simp

lemmas createSubMatrix_5 = createSubMatrix_5_0 createSubMatrix_5_1 createSubMatrix_5_2 createSubMatrix_5_3 createSubMatrix_5_4

lemma upt_0_5: "[0..<5] = [0, 1, 2, 3, 4]"
  by code_simp


lemma det_NxN_1: "det_NxN m (Suc 0) = m ! 0"
  by (simp add: det_NxN_pos det_NxN_0)

lemma det_NxN_2: "det_NxN m 2 = m ! 0 * m ! 3 - m ! 1 * m ! 2"
  by (simp add: det_NxN_pos[of 2] upt_0_2 createSubMatrix_2 det_NxN_1)

lemma det_NxN_3: "det_NxN m 3 =
    m ! 0 * (m ! 4 * m ! 8 - m ! 5 * m ! 7) - m ! 1 * (m ! 3 * m ! 8 - m ! 5 * m ! 6)
    + m ! 2 * (m ! 3 * m ! 7 - m ! 4 * m ! 6)"
  by (simp add: det_NxN_pos[of 3] upt_0_3 createSubMatrix_3 det_NxN_2)

lemma det_NxN_4: "det_NxN m 4 = det_4x4 m"
  by (simp add: det_NxN_pos[of 4] upt_0_4 createSubMatrix_4 det_NxN_3 det_4x4_def algebra_simps)


text \<open>
  C9. The closed form \<open>det_4x4\<close> and the recursive \<open>det_NxN\<close> agree on every 4x4 matrix;
  \<open>det_NxN\<close> of the empty matrix is 1; and for every \<open>d \<le> 5\<close> and every \<open>d \<times> d\<close> matrix,
  \<open>det_NxN\<close> on the row-major array is the first-row cofactor expansion of the matrix.
\<close>

theorem det_fast_path_and_cofactor_expansion:
  "det_4x4 m = det_NxN m 4 \<and> det_NxN e 0 = 1 \<and>
   (d \<le> 5 \<longrightarrow> square_matrix d rows \<longrightarrow> det_NxN (concat rows) d = det_cofactor rows)"
  by (simp add: det_NxN_4 det_NxN_0 det_NxN_cofactor)

theorem det_fast_path_and_cofactor_expansion_witness:
  "(2::nat) \<le> 5 \<and> square_matrix 2 [[1, 2], [3, 4]] \<and>
   det_NxN (concat [[1, 2], [3, 4]]) 2 = det_cofactor [[1, 2], [3, 4]] \<and>
   det_cofactor [[1, 2], [3, 4]] = - 2"
  using det_fast_path_and_cofactor_expansion[of "[]" "[]" 2 "[[1, 2], [3, 4]]"]
  by (simp add: square_matrix_def delete_col_def)

section \<open>Properties of the hyperplane routines\<close>

lemma fold_update_signed:
  "k \<le> length c0 \<Longrightarrow>
   fold (\<lambda>i (c, sg). (c[i := sg * g i], sg * (- 1))) [0..<k] (c0, 1) =
     (map (\<lambda>i. (- 1) ^ i * g i) [0..<k] @ drop k c0, (- 1) ^ k :: real)"
proof (induction k)
  case 0
  then show ?case by simp
next
  case (Suc k)
  then have "k < length c0" by simp
  then have "drop k c0 = c0 ! k # drop (Suc k) c0"
    by (simp add: Cons_nth_drop_Suc)
  with Suc show ?case
    by (simp add: list_update_append)
qed

lemma fold_update_signed_all:
  "length c0 = n \<Longrightarrow>
   fst (fold (\<lambda>i (c, sg). (c[i := sg * g i], - sg)) [0..<n] (c0, 1 :: real)) =
     map (\<lambda>i. (- 1) ^ i * g i) [0..<n]"
  using fold_update_signed[of n c0 g] by simp

lemma fold_add_sum_list:
  "fold (\<lambda>i (n :: real). n + f i) [0..<k] a = a + (\<Sum>i\<leftarrow>[0..<k]. f i)"
  by (induction k) simp_all

lemma fold_sub_sum_list:
  "fold (\<lambda>i (d :: real). d - f i) [0..<k] a = a - (\<Sum>i\<leftarrow>[0..<k]. f i)"
  by (induction k) simp_all

lemma pdiff_sub_delete_col:
  assumes "length pdiff = Nd - 1" "\<forall>r \<in> set pdiff. length r = Nd" "i < Nd"
  shows "pdiff_sub Nd pdiff i = map (delete_col i) pdiff"
proof -
  have "pdiff_sub Nd pdiff i = map (\<lambda>j. delete_col i (pdiff ! j)) [0..<Nd - 1]"
    unfolding pdiff_sub_def using assms
    by (intro map_cong refl delete_col_map_nth) auto
  also have "\<dots> = map (delete_col i) (map (\<lambda>j. pdiff ! j) [0..<length pdiff])"
    using assms by simp
  finally show ?thesis by (simp add: map_nth)
qed

lemma pdiff_rows_shape:
  "length (pdiff_rows Nd p) = Nd - 1" "\<forall>r \<in> set (pdiff_rows Nd p). length r = Nd"
  by (auto simp: pdiff_rows_def)

lemma pdiff_minor_square:
  "i < Nd \<Longrightarrow> square_matrix (Nd - 1) (map (delete_col i) (pdiff_rows Nd p))"
  using pdiff_rows_shape[of Nd p] by (auto simp: square_matrix_def length_delete_col)

lemma plane_nd_cofactor:
  assumes "Nd \<noteq> 3"
  shows "plane_nd Nd p =
    (normalise (cofactor_normal Nd p),
     - (\<Sum>i\<leftarrow>[0..<Nd]. p ! i * normalise (cofactor_normal Nd p) ! i))"
proof -
  let ?g = "\<lambda>i. (let pdiff_s = concat (pdiff_sub Nd (pdiff_rows Nd p) i)
                 in if Nd = 5 then det_4x4 pdiff_s else det_NxN pdiff_s (Nd - 1))"
  have g: "?g i = det_cofactor (map (delete_col i) (pdiff_rows Nd p))" if "i < Nd" for i
  proof -
    have "concat (pdiff_sub Nd (pdiff_rows Nd p) i) = concat (map (delete_col i) (pdiff_rows Nd p))"
      using that pdiff_rows_shape[of Nd p] by (simp add: pdiff_sub_delete_col)
    moreover have "det_NxN (concat (map (delete_col i) (pdiff_rows Nd p))) (Nd - 1) =
          det_cofactor (map (delete_col i) (pdiff_rows Nd p))"
      by (rule det_NxN_cofactor[OF pdiff_minor_square[OF that]])
    ultimately show ?thesis
      by (auto simp: Let_def det_NxN_4[symmetric])
  qed
  have raw: "fst (fold (\<lambda>i (c, sign). (c[i := sign * ?g i], - sign)) [0..<Nd] (replicate Nd 0, 1))
       = cofactor_normal Nd p"
    unfolding cofactor_normal_def
    by (subst fold_update_signed_all) (auto simp: g)
  have sq: "(\<Sum>i\<leftarrow>[0..<length c]. (c ! i)\<^sup>2) = (\<Sum>x\<leftarrow>c. x\<^sup>2)" for c :: "real list"
    by (metis (no_types, lifting) map_nth map_map comp_def map_cong)
  have len: "length (cofactor_normal Nd p) = Nd" by (simp add: cofactor_normal_def)
  show ?thesis
    using assms raw sq[of "cofactor_normal Nd p"] len
    by (simp add: plane_nd_def Let_def fold_add_sum_list fold_sub_sum_list normalise_def)
qed


lemma det_NxN_5_expand: "det_NxN m 5 =
    m ! 0 * det_4x4 [m ! 6, m ! 7, m ! 8, m ! 9, m ! 11, m ! 12, m ! 13, m ! 14,
                     m ! 16, m ! 17, m ! 18, m ! 19, m ! 21, m ! 22, m ! 23, m ! 24]
  - m ! 1 * det_4x4 [m ! 5, m ! 7, m ! 8, m ! 9, m ! 10, m ! 12, m ! 13, m ! 14,
                     m ! 15, m ! 17, m ! 18, m ! 19, m ! 20, m ! 22, m ! 23, m ! 24]
  + m ! 2 * det_4x4 [m ! 5, m ! 6, m ! 8, m ! 9, m ! 10, m ! 11, m ! 13, m ! 14,
                     m ! 15, m ! 16, m ! 18, m ! 19, m ! 20, m ! 21, m ! 23, m ! 24]
  - m ! 3 * det_4x4 [m ! 5, m ! 6, m ! 7, m ! 9, m ! 10, m ! 11, m ! 12, m ! 14,
                     m ! 15, m ! 16, m ! 17, m ! 19, m ! 20, m ! 21, m ! 22, m ! 24]
  + m ! 4 * det_4x4 [m ! 5, m ! 6, m ! 7, m ! 8, m ! 10, m ! 11, m ! 12, m ! 13,
                     m ! 15, m ! 16, m ! 17, m ! 18, m ! 20, m ! 21, m ! 22, m ! 23]"
  by (simp add: det_NxN_pos[of 5] upt_0_5 det_NxN_4 createSubMatrix_5)

lemma det_NxN_4_expand: "det_NxN m 4 = det_4x4 m"
  by (rule det_NxN_4)

lemma det_NxN_3_expand: "det_NxN m 3 =
    m ! 0 * (m ! 4 * m ! 8 - m ! 5 * m ! 7) - m ! 1 * (m ! 3 * m ! 8 - m ! 5 * m ! 6)
    + m ! 2 * (m ! 3 * m ! 7 - m ! 4 * m ! 6)"
  by (rule det_NxN_3)

lemma det_NxN_3_dup_row:
  assumes "j < 2" "\<forall>k<3. m ! k = m ! ((j + 1) * 3 + k)"
  shows "det_NxN m 3 = 0"
proof -
  have j: "j = 0 \<or> j = 1" using assms(1) by auto
  have e: "m ! 0 = m ! ((j + 1) * 3 + 0)" "m ! 1 = m ! ((j + 1) * 3 + 1)" "m ! 2 = m ! ((j + 1) * 3 + 2)"
    using assms(2) by auto
  from j e show ?thesis
    unfolding det_NxN_3_expand det_4x4_def
    by (elim disjE) (simp_all add: algebra_simps)
qed

lemma det_NxN_4_dup_row:
  assumes "j < 3" "\<forall>k<4. m ! k = m ! ((j + 1) * 4 + k)"
  shows "det_NxN m 4 = 0"
proof -
  have j: "j = 0 \<or> j = 1 \<or> j = 2" using assms(1) by auto
  have e: "m ! 0 = m ! ((j + 1) * 4 + 0)" "m ! 1 = m ! ((j + 1) * 4 + 1)" "m ! 2 = m ! ((j + 1) * 4 + 2)" "m ! 3 = m ! ((j + 1) * 4 + 3)"
    using assms(2) by auto
  from j e show ?thesis
    unfolding det_NxN_4_expand det_4x4_def
    by (elim disjE) (simp_all add: algebra_simps)
qed

lemma det_NxN_5_dup_row:
  assumes "j < 4" "\<forall>k<5. m ! k = m ! ((j + 1) * 5 + k)"
  shows "det_NxN m 5 = 0"
proof -
  have j: "j = 0 \<or> j = 1 \<or> j = 2 \<or> j = 3" using assms(1) by auto
  have e: "m ! 0 = m ! ((j + 1) * 5 + 0)" "m ! 1 = m ! ((j + 1) * 5 + 1)" "m ! 2 = m ! ((j + 1) * 5 + 2)" "m ! 3 = m ! ((j + 1) * 5 + 3)" "m ! 4 = m ! ((j + 1) * 5 + 4)"
    using assms(2) by auto
  from j e show ?thesis
    unfolding det_NxN_5_expand det_4x4_def
    by (elim disjE) (simp_all add: algebra_simps)
qed

lemma det_NxN_dup_row:
  assumes "3 \<le> Nd" "Nd \<le> 5" "j < Nd - 1" "\<forall>k<Nd. m ! k = m ! ((j + 1) * Nd + k)"
  shows "det_NxN m Nd = 0"
proof -
  from assms(1,2) have "Nd = 3 \<or> Nd = 4 \<or> Nd = 5" by auto
  then show ?thesis
    using assms(3,4) det_NxN_3_dup_row[of j m] det_NxN_4_dup_row[of j m] det_NxN_5_dup_row[of j m]
    by (elim disjE) simp_all
qed

lemma cofactor_normal_nth:
  "i < Nd \<Longrightarrow> cofactor_normal Nd p ! i =
     (- 1) ^ i * det_cofactor (map (delete_col i) (pdiff_rows Nd p))"
  by (simp add: cofactor_normal_def)

lemma pdiff_rows_nth:
  "j < Nd - 1 \<Longrightarrow> k < Nd \<Longrightarrow>
   pdiff_rows Nd p ! j ! k = p ! ((j + 1) * Nd + k) - p ! (j * Nd + k)"
  by (simp add: pdiff_rows_def)

lemma cofactor_normal_orthogonal:
  assumes "3 \<le> Nd" "Nd \<le> 5" "j < Nd - 1"
  shows "(\<Sum>k\<leftarrow>[0..<Nd]. cofactor_normal Nd p ! k * pdiff_rows Nd p ! j ! k) = 0"
proof -
  let ?M = "pdiff_rows Nd p"
  let ?r = "?M ! j"
  have shape: "length ?M = Nd - 1" "\<forall>r \<in> set ?M. length r = Nd"
    by (rule pdiff_rows_shape)+
  have r: "length ?r = Nd" using shape assms(3) by simp
  have sq: "square_matrix Nd (?r # ?M)"
    using shape r assms(1) by (auto simp: square_matrix_def)
  have "(\<Sum>k\<leftarrow>[0..<Nd]. cofactor_normal Nd p ! k * ?r ! k) =
        (\<Sum>k\<leftarrow>[0..<Nd]. (- 1) ^ k * ?r ! k * det_cofactor (map (delete_col k) ?M))"
    by (rule arg_cong[where f = sum_list], rule map_cong[OF refl])
       (simp add: cofactor_normal_nth)
  also have "\<dots> = det_cofactor (?r # ?M)"
    using shape(1) assms(1) by simp
  also have "\<dots> = det_NxN (concat (?r # ?M)) Nd"
    by (rule det_NxN_cofactor[OF sq, symmetric])
  also have "\<dots> = 0"
  proof (rule det_NxN_dup_row[OF assms])
    show "\<forall>k<Nd. concat (?r # ?M) ! k = concat (?r # ?M) ! ((j + 1) * Nd + k)"
    proof (intro allI impI)
      fix k assume k: "k < Nd"
      have "concat (?r # ?M) ! ((j + 1) * Nd + k) = (?r # ?M) ! (j + 1) ! k"
        using sq k assms(3) shape(1)
        by (intro concat_nth_block[where N = Nd]) (auto simp: square_matrix_def)
      moreover have "concat (?r # ?M) ! k = ?r ! k"
        using r k by (simp add: nth_append)
      ultimately show "concat (?r # ?M) ! k = concat (?r # ?M) ! ((j + 1) * Nd + k)"
        by simp
    qed
  qed
  finally show ?thesis .
qed

lemma sum_list_scaled:
  "(\<Sum>k\<leftarrow>xs. a k / n * b k) = (\<Sum>k\<leftarrow>xs. a k * b k) / (n :: real)"
  by (induction xs) (simp_all add: add_divide_distrib)

lemma normalise_nth:
  "i < length c \<Longrightarrow> normalise c ! i = c ! i / sqrt (\<Sum>x\<leftarrow>c. x\<^sup>2)"
  by (simp add: normalise_def)

lemma length_normalise: "length (normalise c) = length c"
  by (simp add: normalise_def)

lemma length_cofactor_normal: "length (cofactor_normal Nd p) = Nd"
  by (simp add: cofactor_normal_def)

lemma sum_list_squares_pos:
  "\<exists>x \<in> set c. x \<noteq> (0 :: real) \<Longrightarrow> 0 < (\<Sum>x\<leftarrow>c. x\<^sup>2)"
proof (induction c)
  case Nil
  then show ?case by simp
next
  case (Cons a c)
  have nonneg: "0 \<le> (\<Sum>x\<leftarrow>c. x\<^sup>2)" by (rule sum_list_nonneg) auto
  show ?case
  proof (cases "a = 0")
    case True
    with Cons show ?thesis by auto
  next
    case False
    then have "0 < a\<^sup>2" by simp
    with nonneg have "0 < a\<^sup>2 + (\<Sum>x\<leftarrow>c. x\<^sup>2)" by linarith
    then show ?thesis by simp
  qed
qed

lemma normalise_unit:
  assumes "\<exists>x \<in> set c. x \<noteq> 0"
  shows "(\<Sum>x\<leftarrow>normalise c. x\<^sup>2) = 1"
proof -
  let ?s = "\<Sum>x\<leftarrow>c. x\<^sup>2"
  have pos: "0 < ?s" by (rule sum_list_squares_pos[OF assms])
  have "(\<Sum>x\<leftarrow>normalise c. x\<^sup>2) = (\<Sum>x\<leftarrow>c. x\<^sup>2 / ?s)"
    using pos by (simp add: normalise_def comp_def power_divide)
  also have "\<dots> = ?s / ?s"
  proof -
    have "(\<Sum>x\<leftarrow>xs. x\<^sup>2 / n) = (\<Sum>x\<leftarrow>xs. x\<^sup>2) / n" for xs and n :: real
      by (induction xs) (simp_all add: add_divide_distrib)
    then show ?thesis by simp
  qed
  finally show ?thesis using pos by simp
qed

lemma telescope_rows:
  assumes "\<forall>j<Nd - 1. (\<Sum>k\<leftarrow>[0..<Nd]. c k * (p ((j + 1) * Nd + k) - p (j * Nd + k))) = (0 :: real)"
  shows "j < Nd \<Longrightarrow> (\<Sum>k\<leftarrow>[0..<Nd]. c k * p (j * Nd + k)) = (\<Sum>k\<leftarrow>[0..<Nd]. c k * p k)"
proof (induction j)
  case 0
  then show ?case by simp
next
  case (Suc j)
  then have j: "j < Nd - 1" by simp
  have "(\<Sum>k\<leftarrow>[0..<Nd]. c k * p (Suc j * Nd + k)) =
        (\<Sum>k\<leftarrow>[0..<Nd]. c k * (p ((j + 1) * Nd + k) - p (j * Nd + k)) + c k * p (j * Nd + k))"
    by (simp add: algebra_simps)
  also have "\<dots> = (\<Sum>k\<leftarrow>[0..<Nd]. c k * (p ((j + 1) * Nd + k) - p (j * Nd + k))) +
                   (\<Sum>k\<leftarrow>[0..<Nd]. c k * p (j * Nd + k))"
    by (rule sum_list_addf)
  finally show ?case using assms j Suc by simp
qed


lemma det_cofactor_2x2:
  assumes "square_matrix 2 M"
  shows "det_cofactor M = M ! 0 ! 0 * M ! Suc 0 ! Suc 0 - M ! Suc 0 ! 0 * M ! 0 ! Suc 0"
proof -
  from assms obtain r0 r1 where M: "M = [r0, r1]" "length r0 = 2" "length r1 = 2"
    by (auto simp: square_matrix_def length_Suc_conv numeral_2_eq_2)
  then obtain a b c d where "r0 = [a, b]" "r1 = [c, d]"
    by (auto simp: length_Suc_conv numeral_2_eq_2)
  with M show ?thesis by (simp add: delete_col_def)
qed

lemma plane_3d_cofactor:
  "plane_3d p =
    (normalise (cofactor_normal 3 p),
     - (\<Sum>i\<leftarrow>[0..<3]. p ! i * normalise (cofactor_normal 3 p) ! i))"
proof -
  let ?g = "\<lambda>i. (let pdiff_s = pdiff_sub 3 (pdiff_rows 3 p) i
                 in pdiff_s ! 0 ! 0 * pdiff_s ! Suc 0 ! Suc 0 - pdiff_s ! Suc 0 ! 0 * pdiff_s ! 0 ! Suc 0)"
  have g: "?g i = det_cofactor (map (delete_col i) (pdiff_rows 3 p))" if "i < 3" for i
  proof -
    have "pdiff_sub 3 (pdiff_rows 3 p) i = map (delete_col i) (pdiff_rows 3 p)"
      using that pdiff_rows_shape[of 3 p] by (simp add: pdiff_sub_delete_col)
    moreover have "square_matrix 2 (map (delete_col i) (pdiff_rows 3 p))"
      using pdiff_minor_square[OF that, of p] by simp
    ultimately show ?thesis
      by (simp add: Let_def det_cofactor_2x2)
  qed
  have raw: "fst (fold (\<lambda>i (c, sign). (c[i := sign * ?g i], - sign)) [0..<3] (replicate 3 0, 1))
       = cofactor_normal 3 p"
    unfolding cofactor_normal_def
    by (subst fold_update_signed_all) (auto simp: g)
  have sq: "(\<Sum>i\<leftarrow>[0..<length c]. (c ! i)\<^sup>2) = (\<Sum>x\<leftarrow>c. x\<^sup>2)" for c :: "real list"
    by (metis (no_types, lifting) map_nth map_map comp_def map_cong)
  have len: "length (cofactor_normal 3 p) = 3" by (simp add: cofactor_normal_def)
  show ?thesis
    using raw sq[of "cofactor_normal 3 p"] len
    by (simp add: plane_3d_def Let_def fold_add_sum_list fold_sub_sum_list normalise_def
          del: upt_Suc)
qed

lemma plane_nd_normalised_cofactor:
  "plane_nd Nd p =
    (normalise (cofactor_normal Nd p),
     - (\<Sum>i\<leftarrow>[0..<Nd]. p ! i * normalise (cofactor_normal Nd p) ! i))"
proof (cases "Nd = 3")
  case True
  then show ?thesis by (simp add: plane_nd_def plane_3d_cofactor del: upt_Suc)
next
  case False
  then show ?thesis by (rule plane_nd_cofactor)
qed

lemma plane_nd_through_points:
  assumes "3 \<le> Nd" "Nd \<le> 5" "plane_nd Nd p = (c, d)" "j < Nd"
  shows "(\<Sum>k\<leftarrow>[0..<Nd]. c ! k * p ! (j * Nd + k)) + d = 0"
proof -
  let ?raw = "cofactor_normal Nd p"
  let ?n = "sqrt (\<Sum>x\<leftarrow>?raw. x\<^sup>2)"
  have c: "c = normalise ?raw" and d: "d = - (\<Sum>i\<leftarrow>[0..<Nd]. p ! i * c ! i)"
    using assms(3) by (auto simp: plane_nd_normalised_cofactor)
  have cn: "(\<Sum>k\<leftarrow>[0..<Nd]. c ! k * f k) = (\<Sum>k\<leftarrow>[0..<Nd]. ?raw ! k * f k) / ?n" for f
  proof -
    have "(\<Sum>k\<leftarrow>[0..<Nd]. c ! k * f k) = (\<Sum>k\<leftarrow>[0..<Nd]. ?raw ! k / ?n * f k)"
      by (rule arg_cong[where f = sum_list], rule map_cong[OF refl])
         (simp add: c normalise_nth length_cofactor_normal)
    then show ?thesis by (simp only: sum_list_scaled)
  qed
  have orth: "\<forall>j<Nd - 1. (\<Sum>k\<leftarrow>[0..<Nd]. c ! k * (p ! ((j + 1) * Nd + k) - p ! (j * Nd + k))) = 0"
  proof (intro allI impI)
    fix i assume i: "i < Nd - 1"
    have "(\<Sum>k\<leftarrow>[0..<Nd]. ?raw ! k * (p ! ((i + 1) * Nd + k) - p ! (i * Nd + k))) =
          (\<Sum>k\<leftarrow>[0..<Nd]. ?raw ! k * pdiff_rows Nd p ! i ! k)"
      by (rule arg_cong[where f = sum_list], rule map_cong[OF refl])
         (use i in \<open>simp add: pdiff_rows_nth\<close>)
    also have "\<dots> = 0" by (rule cofactor_normal_orthogonal[OF assms(1,2) i])
    finally show "(\<Sum>k\<leftarrow>[0..<Nd]. c ! k * (p ! ((i + 1) * Nd + k) - p ! (i * Nd + k))) = 0"
      by (simp add: cn)
  qed
  have "(\<Sum>k\<leftarrow>[0..<Nd]. c ! k * p ! (j * Nd + k)) = (\<Sum>k\<leftarrow>[0..<Nd]. c ! k * p ! k)"
    using telescope_rows[of Nd "\<lambda>k. c ! k" "\<lambda>k. p ! k", OF orth assms(4)] .
  then show ?thesis by (simp add: d mult.commute)
qed

text \<open>
  C7. In exact arithmetic, for \<open>3 \<le> Nd \<le> 5\<close> and \<open>Nd\<close> points whose generalized cross
  product is not the zero vector, \<open>plane_nd\<close> (which is \<open>plane_3d\<close> for \<open>Nd = 3\<close>) returns
  \<open>Nd\<close> coefficients of Euclidean norm 1 and a constant term such that every one of the
  \<open>Nd\<close> points lies on the plane; coefficient \<open>i\<close> is the cofactor of the point-difference
  matrix without column \<open>i\<close>, with alternating sign, divided by the norm of the cofactor
  vector.
\<close>

theorem plane_nd_postcondition:
  assumes "3 \<le> Nd" "Nd \<le> 5" "\<exists>i<Nd. cofactor_normal Nd p ! i \<noteq> 0"
    and "plane_nd Nd p = (c, d)"
  shows "(Nd = 3 \<longrightarrow> plane_3d p = (c, d)) \<and>
         length c = Nd \<and>
         (\<Sum>i\<leftarrow>[0..<Nd]. (c ! i)\<^sup>2) = 1 \<and>
         (\<forall>j<Nd. (\<Sum>k\<leftarrow>[0..<Nd]. c ! k * p ! (j * Nd + k)) + d = 0) \<and>
         (\<forall>i<Nd. c ! i = (- 1) ^ i * det_cofactor (map (delete_col i) (pdiff_rows Nd p)) /
                           sqrt (\<Sum>x\<leftarrow>cofactor_normal Nd p. x\<^sup>2))"
proof -
  let ?raw = "cofactor_normal Nd p"
  have c: "c = normalise ?raw"
    using assms(4) by (simp add: plane_nd_normalised_cofactor)
  have len: "length c = Nd" by (simp add: c length_normalise length_cofactor_normal)
  have nz: "\<exists>x \<in> set ?raw. x \<noteq> 0"
    using assms(3) by (metis length_cofactor_normal nth_mem)
  have "(\<Sum>i\<leftarrow>[0..<Nd]. (c ! i)\<^sup>2) = (\<Sum>x\<leftarrow>c. x\<^sup>2)"
    using len by (metis (no_types, lifting) map_nth map_map comp_def map_cong)
  then have unit: "(\<Sum>i\<leftarrow>[0..<Nd]. (c ! i)\<^sup>2) = 1"
    using normalise_unit[OF nz] c by simp
  have p3: "Nd = 3 \<longrightarrow> plane_3d p = (c, d)"
    using assms(4) by (cases "Nd = 3") (simp_all add: plane_nd_def)
  have thru: "\<forall>j<Nd. (\<Sum>k\<leftarrow>[0..<Nd]. c ! k * p ! (j * Nd + k)) + d = 0"
    using plane_nd_through_points[OF assms(1,2,4)] by blast
  have cof: "\<forall>i<Nd. c ! i = (- 1) ^ i * det_cofactor (map (delete_col i) (pdiff_rows Nd p)) /
                           sqrt (\<Sum>x\<leftarrow>?raw. x\<^sup>2)"
    by (simp add: c normalise_nth length_cofactor_normal cofactor_normal_nth)
  from p3 len unit thru cof show ?thesis by blast
qed


lemma replicate_3: "replicate 3 x = [x, x, x]"
  by (simp add: numeral_3_eq_3)

lemma plane_nd_example: "plane_nd 3 [0, 0, 0, 1, 0, 0, 0, 1, 0] = ([0, 0, 1], 0)"
  by (simp add: plane_nd_def plane_3d_def pdiff_rows_def pdiff_sub_def upt_0_3 upt_0_2 Let_def
        replicate_3)

lemma cofactor_normal_example: "cofactor_normal 3 [0, 0, 0, 1, 0, 0, 0, 1, 0] = [0, 0, 1]"
  by (simp add: cofactor_normal_def pdiff_rows_def upt_0_3 upt_0_2 delete_col_def)

theorem plane_nd_postcondition_witness:
  "3 \<le> (3::nat) \<and> (3::nat) \<le> 5 \<and>
   cofactor_normal 3 [0, 0, 0, 1, 0, 0, 0, 1, 0] ! 2 \<noteq> 0 \<and>
   plane_nd 3 [0, 0, 0, 1, 0, 0, 0, 1, 0] = ([0, 0, 1], 0) \<and>
   plane_3d [0, 0, 0, 1, 0, 0, 0, 1, 0] = ([0, 0, 1], 0) \<and>
   (\<Sum>i\<leftarrow>[0..<3]. ([0, 0, 1 :: real] ! i)\<^sup>2) = 1 \<and>
   (\<Sum>k\<leftarrow>[0..<3]. [0, 0, 1] ! k * [0, 0, 0, 1, 0, 0, 0, 1, 0] ! (0 * 3 + k)) + 0 = (0::real) \<and>
   (\<Sum>k\<leftarrow>[0..<3]. [0, 0, 1] ! k * [0, 0, 0, 1, 0, 0, 0, 1, 0] ! (1 * 3 + k)) + 0 = (0::real) \<and>
   (\<Sum>k\<leftarrow>[0..<3]. [0, 0, 1] ! k * [0, 0, 0, 1, 0, 0, 0, 1, 0] ! (2 * 3 + k)) + 0 = (0::real)"
proof -
  have nz: "\<exists>i<3. cofactor_normal 3 [0, 0, 0, 1, 0, 0, 0, 1, 0] ! i \<noteq> 0"
    by (rule exI[of _ 2]) (simp add: cofactor_normal_example)
  have c: "cofactor_normal 3 [0, 0, 0, 1, 0, 0, 0, 1, 0] ! 2 \<noteq> 0"
    by (simp add: cofactor_normal_example)
  note t = plane_nd_postcondition[OF _ _ nz plane_nd_example]
  have t3: "plane_3d [0, 0, 0, 1, 0, 0, 0, 1, 0] = ([0, 0, 1], 0)"
    and tu: "(\<Sum>i\<leftarrow>[0..<3]. ([0, 0, 1 :: real] ! i)\<^sup>2) = 1"
    and tp: "\<forall>j<3. (\<Sum>k\<leftarrow>[0..<3]. [0, 0, 1] ! k * [0, 0, 0, 1, 0, 0, 0, 1, 0] ! (j * 3 + k)) + 0 = (0::real)"
    using t by simp_all
  from tp[rule_format, of 0] tp[rule_format, of 1] tp[rule_format, of 2]
  have "(\<Sum>k\<leftarrow>[0..<3]. [0, 0, 1] ! k * [0, 0, 0, 1, 0, 0, 0, 1, 0] ! (0 * 3 + k)) + 0 = (0::real)"
    "(\<Sum>k\<leftarrow>[0..<3]. [0, 0, 1] ! k * [0, 0, 0, 1, 0, 0, 0, 1, 0] ! (1 * 3 + k)) + 0 = (0::real)"
    "(\<Sum>k\<leftarrow>[0..<3]. [0, 0, 1] ! k * [0, 0, 0, 1, 0, 0, 0, 1, 0] ! (2 * 3 + k)) + 0 = (0::real)"
    by simp_all
  with c plane_nd_example t3 tu show ?thesis by (simp del: upt_Suc)
qed

section \<open>Properties of the hull engine\<close>

subsection \<open>Structure of one iteration\<close>

lemma point_rows_length:
  "point_rows points vs = Inr rows \<Longrightarrow> length rows = length vs"
  by (induction vs arbitrary: rows) (auto split: sum.splits)

lemma point_rows_nth:
  "point_rows points vs = Inr rows \<Longrightarrow> k < length vs \<Longrightarrow>
   vs ! k < length points \<and> rows ! k = points ! (vs ! k)"
proof (induction vs arbitrary: rows k)
  case Nil
  then show ?case by simp
next
  case (Cons v vs)
  then show ?case
    by (cases k) (auto simp: point_row_def split: sum.splits if_splits)
qed

lemma add_faces_result:
  assumes "add_faces d plane points i hs (F, C, D) = Inr ((F', C', D'), err)"
    and "length C = length F" "length D = length F"
  shows "length C' = length F' \<and> length D' = length F' \<and>
         (err \<longrightarrow> F' = [] \<and> C' = [] \<and> D' = []) \<and>
         (\<not> err \<longrightarrow> length F' = length F + length hs \<and> take (length F) F' = F \<and>
            take (length F) C' = C \<and> take (length F) D' = D \<and>
            length F' \<le> max (length F) CH_MAX_NUM_FACES)"
  using assms
proof (induction hs arbitrary: F C D)
  case Nil
  then show ?case by auto
next
  case (Cons h hs)
  let ?nf = "take (d - 1) h @ [i]"
  from Cons.prems(1) obtain cfi dfi where
    pl: "face_plane d plane points ?nf = Inr (cfi, dfi)"
    by (auto simp: Let_def split: sum.splits)
  show ?case
  proof (cases "length (F @ [?nf]) > CH_MAX_NUM_FACES")
    case True
    with Cons.prems(1) pl show ?thesis by (auto simp: Let_def)
  next
    case False
    with Cons.prems(1) pl have rec:
      "add_faces d plane points i hs (F @ [?nf], C @ [cfi], D @ [dfi]) = Inr ((F', C', D'), err)"
      by (simp add: Let_def)
    have IH: "length C' = length F' \<and> length D' = length F' \<and>
         (err \<longrightarrow> F' = [] \<and> C' = [] \<and> D' = []) \<and>
         (\<not> err \<longrightarrow> length F' = length (F @ [?nf]) + length hs \<and>
            take (length (F @ [?nf])) F' = F @ [?nf] \<and>
            take (length (F @ [?nf])) C' = C @ [cfi] \<and>
            take (length (F @ [?nf])) D' = D @ [dfi] \<and>
            length F' \<le> max (length (F @ [?nf])) CH_MAX_NUM_FACES)"
      using Cons.prems(2,3) by (intro Cons.IH[OF rec]) simp_all
    have tk: "take m xs = ys" if "take n xs = ys @ [y]" "length ys = m" "n = Suc m"
      for n m and xs ys :: "'a list" and y
    proof -
      have "take m xs = take m (take n xs)" using that(3) by (simp add: min_def)
      then show ?thesis using that(1,2) by simp
    qed
    show ?thesis
    proof (intro conjI impI)
      show "length C' = length F'" "length D' = length F'" using IH by simp_all
      show "F' = []" "C' = []" "D' = []" if err using IH that by simp_all
    next
      assume ne: "\<not> err"
      with IH show "length F' = length F + length (h # hs)" by simp
      from ne IH show "take (length F) F' = F" by (intro tk[of "Suc (length F)" F' F ?nf]) simp_all
      from ne IH Cons.prems(2) show "take (length F) C' = C"
        by (intro tk[of "Suc (length F)" C' C cfi]) simp_all
      from ne IH Cons.prems(3) show "take (length F) D' = D"
        by (intro tk[of "Suc (length F)" D' D dfi]) simp_all
      from ne IH False show "length F' \<le> max (length F) CH_MAX_NUM_FACES" by auto
    qed
  qed
qed

lemma add_faces_new:
  assumes "add_faces d plane points i hs (F, C, D) = Inr ((F', C', D'), False)"
    and "length C = length F" "length D = length F" "k < length hs"
  shows "F' ! (length F + k) = take (d - 1) (hs ! k) @ [i] \<and>
         face_plane d plane points (take (d - 1) (hs ! k) @ [i]) =
           Inr (C' ! (length F + k), D' ! (length F + k))"
  using assms
proof (induction hs arbitrary: F C D k)
  case Nil
  then show ?case by simp
next
  case (Cons h hs)
  let ?nf = "take (d - 1) h @ [i]"
  from Cons.prems(1) obtain cfi dfi where
    pl: "face_plane d plane points ?nf = Inr (cfi, dfi)"
    by (auto simp: Let_def split: sum.splits)
  from Cons.prems(1) pl have rec:
    "add_faces d plane points i hs (F @ [?nf], C @ [cfi], D @ [dfi]) = Inr ((F', C', D'), False)"
    by (auto simp: Let_def split: if_splits)
  have len: "length (C @ [cfi]) = length (F @ [?nf])" "length (D @ [dfi]) = length (F @ [?nf])"
    using Cons.prems(2,3) by simp_all
  show ?case
  proof (cases k)
    case 0
    from add_faces_result[OF rec len]
    have "take (length (F @ [?nf])) F' = F @ [?nf]" "take (length (F @ [?nf])) C' = C @ [cfi]"
         "take (length (F @ [?nf])) D' = D @ [dfi]"
      by simp_all
    then have "take (Suc (length F)) F' ! length F = ?nf"
         "take (Suc (length F)) C' ! length F = cfi"
         "take (Suc (length F)) D' ! length F = dfi"
      using Cons.prems(2,3) by (simp_all add: nth_append)
    then have "F' ! length F = ?nf" "C' ! length F = cfi" "D' ! length F = dfi"
      by simp_all
    with 0 pl show ?thesis by simp
  next
    case (Suc k')
    with Cons.prems(4) have "k' < length hs" by simp
    from Cons.IH[OF rec len this] Suc show ?thesis by simp
  qed
qed

subsection \<open>The orientation step\<close>

lemma swap_last2_row:
  assumes "2 \<le> d"
  shows "swap_last2 d k F = Inr (F[k := (F ! k)[d - 1 := F ! k ! (d - 2), d - 2 := F ! k ! (d - 1)]])"
proof -
  from assms have n: "\<not> k * d + d < 2" by simp
  have dm: "(r + k * d) div d = k \<and> (r + k * d) mod d = r" if "r < d" for r
    using that by simp
  from assms have e1: "k * d + d - 1 = (d - 1) + k * d" and e2: "k * d + d - 2 = (d - 2) + k * d"
    by simp_all
  from assms have a: "(k * d + d - 1) div d = k" "(k * d + d - 1) mod d = d - 1"
    unfolding e1 using dm[of "d - 1"] by simp_all
  from assms have b: "(k * d + d - 2) div d = k" "(k * d + d - 2) mod d = d - 2"
    unfolding e2 using dm[of "d - 2"] by simp_all
  show ?thesis
  proof (cases "k < length F")
    case True
    then show ?thesis
      unfolding swap_last2_def Let_def face_entry_def set_face_entry_def a b using n by simp
  next
    case False
    then show ?thesis
      unfolding swap_last2_def Let_def face_entry_def set_face_entry_def a b using n
      by (simp add: list_update_beyond)
  qed
qed

lemma swap_last2_rows:
  assumes "swap_last2 1 k F = Inr F'"
  shows "0 < k \<and>
         F' = F[k := (F ! k)[0 := F ! (k - 1) ! 0], k - 1 := (F ! (k - 1))[0 := F ! k ! 0]]"
proof -
  from assms have k: "0 < k" by (auto simp: swap_last2_def split: if_splits)
  then have ne: "k - 1 \<noteq> k" by simp
  from assms k have "F' = (F[k := (F ! k)[0 := F ! (k - 1) ! 0]])
                            [k - 1 := (F[k := (F ! k)[0 := F ! (k - 1) ! 0]] ! (k - 1))[0 := F ! k ! 0]]"
    by (simp add: swap_last2_def Let_def face_entry_def set_face_entry_def)
  with ne k show ?thesis by simp
qed

lemma swap_last2_dim:
  assumes "swap_last2 d k F = Inr F'"
  shows "1 \<le> d"
  using assms by (cases d) (auto simp: swap_last2_def)

lemma swap_last2_length:
  assumes "swap_last2 d k F = Inr F'"
  shows "length F' = length F"
  using assms by (auto simp: swap_last2_def Let_def set_face_entry_def split: if_splits)

lemma flip_face_result:
  assumes "flip_face d k (F, C, D) = Inr (F', C', D')"
  shows "swap_last2 d k F = Inr F' \<and> C' = C[k := map uminus (C ! k)] \<and> D' = D[k := - (D ! k)]"
  using assms by (auto simp: flip_face_def split: sum.splits)

lemma flip_face_length:
  assumes "flip_face d k (F, C, D) = Inr (F', C', D')"
  shows "length F' = length F \<and> length C' = length C \<and> length D' = length D"
  using flip_face_result[OF assms] swap_last2_length[of d k F F'] by simp

lemma orient_new_face_result:
  assumes "orient_new_face d det points nF k T = Inr T'"
  shows "T' = T \<or> flip_face d k T = Inr T'"
proof -
  obtain F C D where T: "T = (F, C, D)" by (cases T) auto
  let ?pp = "map fst (filter (\<lambda>(h, m). m = 0) (zip [0..<nF] (ismember [0..<nF] (sort_int (F ! k)))))"
  from assms obtain detA index where
    w: "while_coplanar det points (F ! k) ?pp 0 = Inr (detA, index)"
    unfolding orient_new_face_def T by (auto simp: Let_def split: sum.splits)
  show ?thesis
  proof (cases "detA < 0")
    case True
    with assms w show ?thesis
      unfolding orient_new_face_def T
      by (auto simp: Let_def split: if_splits sum.splits)
  next
    case False
    with assms w show ?thesis
      unfolding orient_new_face_def T by (simp add: Let_def)
  qed
qed

lemma orient_new_faces_invariant:
  assumes "orient_new_faces d det points nF ks T = Inr T'" "Q T"
    and step: "\<And>k T T1. k \<in> set ks \<Longrightarrow> Q T \<Longrightarrow> flip_face d k T = Inr T1 \<Longrightarrow> Q T1"
  shows "Q T'"
  using assms
proof (induction ks arbitrary: T)
  case Nil
  then show ?case by simp
next
  case (Cons k ks)
  from Cons.prems(1) obtain T1 where
    a: "orient_new_face d det points nF k T = Inr T1"
    and b: "orient_new_faces d det points nF ks T1 = Inr T'"
    by (auto split: sum.splits)
  from orient_new_face_result[OF a] Cons.prems(2) Cons.prems(3)[of k T T1]
  have "Q T1" by auto
  show ?case
    by (rule Cons.IH[OF b \<open>Q T1\<close>]) (rule Cons.prems(3), simp_all)
qed

lemma orient_simplex_invariant:
  assumes "orient_simplex d det points ks T = Inr T'" "Q T"
    and step: "\<And>k T T1. k \<in> set ks \<Longrightarrow> Q T \<Longrightarrow> flip_face d k T = Inr T1 \<Longrightarrow> Q T1"
  shows "Q T'"
  using assms
proof (induction ks arbitrary: T)
  case Nil
  then show ?case by simp
next
  case (Cons k ks)
  obtain F C D where T: "T = (F, C, D)" by (cases T) auto
  from Cons.prems(1) obtain v where v: "orientation_det det points (F ! k) k = Inr v"
    unfolding T by (auto split: sum.splits)
  show ?case
  proof (cases "v < 0")
    case True
    with Cons.prems(1) v obtain T1 where
      a: "flip_face d k T = Inr T1" and b: "orient_simplex d det points ks T1 = Inr T'"
      unfolding T by (auto split: sum.splits)
    from Cons.prems(3)[of k T T1] Cons.prems(2) a have "Q T1" by simp
    show ?thesis
      by (rule Cons.IH[OF b \<open>Q T1\<close>]) (rule Cons.prems(3), simp_all)
  next
    case False
    with Cons.prems(1) v have b: "orient_simplex d det points ks T = Inr T'"
      unfolding T by simp
    show ?thesis
      by (rule Cons.IH[OF b Cons.prems(2)]) (rule Cons.prems(3), simp_all)
  qed
qed

lemma flip_face_table_lengths:
  assumes "flip_face d k T = Inr T1"
  shows "table_lengths T1 = table_lengths T"
proof -
  obtain F C D where T: "T = (F, C, D)" by (cases T) auto
  obtain F1 C1 D1 where T1: "T1 = (F1, C1, D1)" by (cases T1) auto
  from flip_face_length[OF assms[unfolded T T1]] show ?thesis
    by (simp add: table_lengths_def T T1)
qed

lemma orient_new_faces_length:
  assumes "orient_new_faces d det points nF ks (F, C, D) = Inr (F', C', D')"
  shows "length F' = length F \<and> length C' = length C \<and> length D' = length D"
proof -
  have "table_lengths (F', C', D') = table_lengths (F, C, D)"
    by (rule orient_new_faces_invariant[where Q = "\<lambda>T. table_lengths T = table_lengths (F, C, D)", OF assms])
       (simp_all add: flip_face_table_lengths)
  then show ?thesis by (simp add: table_lengths_def)
qed

lemma orient_simplex_length:
  assumes "orient_simplex d det points ks (F, C, D) = Inr (F', C', D')"
  shows "length F' = length F \<and> length C' = length C \<and> length D' = length D"
proof -
  have "table_lengths (F', C', D') = table_lengths (F, C, D)"
    by (rule orient_simplex_invariant[where Q = "\<lambda>T. table_lengths T = table_lengths (F, C, D)", OF assms])
       (simp_all add: flip_face_table_lengths)
  then show ?thesis by (simp add: table_lengths_def)
qed

lemma iteration_cases:
  assumes "iteration d plane det points st = Inr st'" "pleft st = i # rest"
  obtains (interior) "i < length points"
      "\<forall>j<nFaces st. \<not> (dot d (take d (points ! i)) (cf st ! j) + df st ! j > 0)"
      "st' = st\<lparr>pleft := rest\<rparr>"
  | (insert) keep vis F C D err F' C' D' where "i < length points"
      "vis = filter (\<lambda>j. dot d (take d (points ! i)) (cf st ! j) + df st ! j > 0) [0..<nFaces st]"
      "keep = filter (\<lambda>j. \<not> (dot d (take d (points ! i)) (cf st ! j) + df st ! j > 0)) [0..<nFaces st]"
      "add_faces d plane points i (horizon_of d (faces st) vis (map (\<lambda>j. faces st ! j) keep))
         (map (\<lambda>j. faces st ! j) keep, map (\<lambda>j. cf st ! j) keep, map (\<lambda>j. df st ! j) keep)
        = Inr ((F, C, D), err)"
      "orient_new_faces d det points (length F) [length keep..<length F] (F, C, D)
        = Inr (F', C', D')"
      "st' = \<lparr>faces = F', cf = C', df = D', pleft = rest, ERROR = err\<rparr>"
proof -
  let ?ps = "take d (points ! i)"
  let ?P = "\<lambda>j. dot d ?ps (cf st ! j) + df st ! j > 0"
  from assms have i: "i < length points" and row: "point_row points i = Inr (points ! i)"
    by (auto simp: iteration_def point_row_def split: if_splits)
  have nth: "visible_ind d ?ps st ! j = ?P j" if "j < nFaces st" for j
    using that by (simp add: visible_ind_def)
  have f1: "filter (\<lambda>j. visible_ind d ?ps st ! j) [0..<nFaces st] = filter ?P [0..<nFaces st]"
    by (rule filter_cong) (auto simp: nth)
  have f2: "filter (\<lambda>j. \<not> visible_ind d ?ps st ! j) [0..<nFaces st] =
            filter (\<lambda>j. \<not> ?P j) [0..<nFaces st]"
    by (rule filter_cong) (auto simp: nth)
  have cnt: "length (filter (\<lambda>b. b) (visible_ind d ?ps st)) = 0 \<longleftrightarrow> (\<forall>j<nFaces st. \<not> ?P j)"
    by (auto simp: visible_ind_def filter_empty_conv)
  show ?thesis
  proof (cases "\<forall>j<nFaces st. \<not> ?P j")
    case True
    with assms row cnt have "st' = st\<lparr>pleft := rest\<rparr>"
      by (simp add: iteration_def Let_def)
    with i True show ?thesis by (rule interior)
  next
    case False
    with cnt have nz: "length (filter (\<lambda>b. b) (visible_ind d ?ps st)) \<noteq> 0" by simp
    let ?vis = "filter ?P [0..<nFaces st]"
    let ?keep = "filter (\<lambda>j. \<not> ?P j) [0..<nFaces st]"
    let ?add = "add_faces d plane points i (horizon_of d (faces st) ?vis (map (\<lambda>j. faces st ! j) ?keep))
         (map (\<lambda>j. faces st ! j) ?keep, map (\<lambda>j. cf st ! j) ?keep, map (\<lambda>j. df st ! j) ?keep)"
    let ?start = "length (map (\<lambda>j. faces st ! j) ?keep)"
    have unf: "iteration d plane det points st =
       (case ?add of
          Inl e \<Rightarrow> Inl e
        | Inr ((F, C, D), err) \<Rightarrow>
            (case orient_new_faces d det points (length F) [?start..<length F] (F, C, D) of
               Inl e \<Rightarrow> Inl e
             | Inr (F', C', D') \<Rightarrow>
                 Inr \<lparr>faces = F', cf = C', df = D', pleft = rest, ERROR = err\<rparr>))"
      unfolding iteration_def assms(2) list.case row sum.case Let_def f1 f2
      using nz by (simp only: if_False)
    from assms(1) unf obtain F C D err where
      add: "?add = Inr ((F, C, D), err)"
      by (cases ?add) auto
    from assms(1) unf add obtain F' C' D' where
      new: "orient_new_faces d det points (length F) [?start..<length F] (F, C, D) = Inr (F', C', D')"
      by (cases "orient_new_faces d det points (length F) [?start..<length F] (F, C, D)") auto
    from assms(1) unf add new have
      "st' = \<lparr>faces = F', cf = C', df = D', pleft = rest, ERROR = err\<rparr>"
      by simp
    with i add new show ?thesis by (intro insert[OF i refl refl]) simp_all
  qed
qed

subsection \<open>The main loop and the facet count\<close>

lemma main_loop_invariant:
  assumes "main_loop d plane det points st = Inr st'" "I st"
    and step: "\<And>s s'. I s \<Longrightarrow> pleft s \<noteq> [] \<Longrightarrow> iteration d plane det points s = Inr s' \<Longrightarrow> I s'"
  shows "I st'"
  using assms
proof (induction d plane det points st rule: main_loop.induct)
  case (1 d plane det points st)
  show ?case
  proof (cases "pleft st = []")
    case True
    with "1.prems" show ?thesis by (simp add: main_loop.simps)
  next
    case False
    with "1.prems"(1) obtain s' where it: "iteration d plane det points st = Inr s'"
      by (subst (asm) main_loop.simps) (auto split: sum.splits)
    from "1.prems"(2) False it have I': "I s'"
      by (rule "1.prems"(3))
    show ?thesis
    proof (cases "ERROR s'")
      case True
      with "1.prems"(1) False it have "st' = s'"
        by (subst (asm) main_loop.simps) simp
      with I' show ?thesis by simp
    next
      case e: False
      with "1.prems"(1) False it have "main_loop d plane det points s' = Inr st'"
        by (subst (asm) main_loop.simps) simp
      from "1.IH"[OF False it e this I' "1.prems"(3)] show ?thesis .
    qed
  qed
qed

lemma main_loop_stops_on_error:
  assumes "iteration d plane det points st = Inr st'" "pleft st \<noteq> []" "ERROR st'"
  shows "main_loop d plane det points st = Inr st'"
  using assms by (subst main_loop.simps) simp

lemma iteration_aligned:
  assumes "iteration d plane det points st = Inr st'" "pleft st \<noteq> []"
    and "aligned st" "nFaces st \<le> CH_MAX_NUM_FACES" "ERROR st \<longrightarrow> nFaces st = 0"
  shows "aligned st' \<and> nFaces st' \<le> CH_MAX_NUM_FACES \<and> (ERROR st' \<longrightarrow> nFaces st' = 0)"
proof -
  from assms(2) obtain i rest where p: "pleft st = i # rest" by (cases "pleft st") auto
  from assms(1) p show ?thesis
  proof (cases rule: iteration_cases)
    case interior
    with assms(3,4,5) show ?thesis by (simp add: aligned_def nFaces_def)
  next
    case (insert keep vis F C D err F' C' D')
    let ?F0 = "map (\<lambda>j. faces st ! j) keep"
    have k: "length keep \<le> nFaces st"
      unfolding insert(3) using length_filter_le[of _ "[0..<nFaces st]"] by simp
    from add_faces_result[OF insert(4)]
    have r: "length C = length F" "length D = length F"
      "err \<longrightarrow> F = [] \<and> C = [] \<and> D = []"
      "\<not> err \<longrightarrow> length F = length keep + length (horizon_of d (faces st) vis ?F0) \<and>
               length F \<le> max (length keep) CH_MAX_NUM_FACES"
      by auto
    note n = orient_new_faces_length[OF insert(5)]
    show ?thesis
    proof (cases err)
      case True
      with r(3) n insert(6) show ?thesis by (simp add: aligned_def nFaces_def)
    next
      case False
      with r(4) k assms(4) have "length F \<le> CH_MAX_NUM_FACES" by auto
      with n r(1,2) insert(6) False show ?thesis by (simp add: aligned_def nFaces_def)
    qed
  qed
qed

lemma simplex_planes_length:
  "simplex_planes d plane points fs = Inr pls \<Longrightarrow> length pls = length fs"
  by (induction fs arbitrary: pls) (auto split: sum.splits)

lemma length_simplex_faces: "length (simplex_faces d) = d + 1"
  by (simp add: simplex_faces_def)

lemma initial_simplex_result:
  assumes "initial_simplex d plane det points = Inr (F, C, D)"
  shows "length F = d + 1 \<and> length C = d + 1 \<and> length D = d + 1"
proof -
  from assms obtain pls where
    pls: "simplex_planes d plane points (simplex_faces d) = Inr pls"
    and o: "orient_simplex d det points [0..<d + 1] (simplex_faces d, map fst pls, map snd pls)
              = Inr (F, C, D)"
    by (auto simp: initial_simplex_def split: sum.splits)
  from simplex_planes_length[OF pls] have l: "length pls = d + 1"
    by (simp add: length_simplex_faces)
  from orient_simplex_length[OF o] l show ?thesis
    by (simp add: length_simplex_faces)
qed

lemma hull_engine_result:
  assumes "hull_engine d plane det points = Inr st"
  obtains spans F C D where "find_span points [0..<d] = Inr spans"
    "initial_simplex d plane det points = Inr (F, C, D)"
    "main_loop d plane det points
       \<lparr>faces = F, cf = C, df = D, pleft = initial_pleft d points spans, ERROR = False\<rparr> = Inr st"
proof -
  from assms obtain spans where s: "find_span points [0..<d] = Inr spans"
    by (auto simp: hull_engine_def split: sum.splits)
  from assms s obtain T where T: "initial_simplex d plane det points = Inr T"
    by (auto simp: hull_engine_def split: sum.splits)
  obtain F C D where T': "T = (F, C, D)" by (cases T) auto
  from assms s T have "main_loop d plane det points
       \<lparr>faces = F, cf = C, df = D, pleft = initial_pleft d points spans, ERROR = False\<rparr> = Inr st"
    by (simp add: hull_engine_def T')
  with s T show ?thesis unfolding T' by (rule that)
qed

lemma hull_engine_bound:
  assumes "hull_engine d plane det points = Inr st" "d + 1 \<le> CH_MAX_NUM_FACES"
  shows "aligned st \<and> nFaces st \<le> CH_MAX_NUM_FACES \<and> (ERROR st \<longrightarrow> nFaces st = 0)"
proof -
  from assms(1) obtain spans F C D where
    fcs: "initial_simplex d plane det points = Inr (F, C, D)"
    and ml: "main_loop d plane det points
       \<lparr>faces = F, cf = C, df = D, pleft = initial_pleft d points spans, ERROR = False\<rparr> = Inr st"
    by (rule hull_engine_result)
  let ?I = "\<lambda>s. aligned s \<and> nFaces s \<le> CH_MAX_NUM_FACES \<and> (ERROR s \<longrightarrow> nFaces s = 0)"
  from initial_simplex_result[OF fcs] assms(2)
  have init: "?I \<lparr>faces = F, cf = C, df = D, pleft = initial_pleft d points spans, ERROR = False\<rparr>"
    by (simp add: aligned_def nFaces_def)
  show ?thesis
    by (rule main_loop_invariant[where I = ?I, OF ml init]) (use iteration_aligned in blast)
qed

lemma convhull_3d_build_bound:
  assumes "convhull_3d_build noise vs = Inr out"
  shows "case out_faces out of
           None \<Rightarrow> nOut_faces out = 0
         | Some fs \<Rightarrow> nOut_faces out = length fs \<and> length fs \<le> CH_MAX_NUM_FACES"
proof (cases "length vs < 3")
  case True
  with assms show ?thesis by (auto simp: convhull_3d_build_def)
next
  case False
  with assms obtain st where
    e: "hull_engine 3 plane_3d det_4x4
          (perturb noise 3 (\<lambda>i j. vertex_coord (vs ! i) j) (length vs)) = Inr st"
    and out: "out = output_3d st"
    by (auto simp: convhull_3d_build_def Let_def split: sum.splits)
  from hull_engine_bound[OF e] have "nFaces st \<le> CH_MAX_NUM_FACES"
    by (simp add: CH_MAX_NUM_FACES_def)
  with out show ?thesis by (simp add: output_3d_def nFaces_def)
qed

lemma convhull_nd_build_bound:
  assumes "convhull_nd_build noise vs nVert d = Inr out"
  shows "case out_faces out of
           None \<Rightarrow> nOut_faces out = 0 \<and> out_cf out = None \<and> out_df out = None
         | Some fs \<Rightarrow> nOut_faces out = length fs \<and> length fs \<le> CH_MAX_NUM_FACES \<and>
               (\<exists>c dk. out_cf out = Some c \<and> out_df out = Some dk \<and>
                  length c = length fs \<and> length dk = length fs)"
proof -
  from assms have d: "d \<le> CONVHULL_ND_MAX_DIMENSIONS"
    by (auto simp: convhull_nd_build_def split: if_splits)
  show ?thesis
  proof (cases "nVert \<le> d")
    case True
    with assms d show ?thesis by (auto simp: convhull_nd_build_def)
  next
    case False
    with assms d obtain st where
      e: "hull_engine d (plane_nd d) (det_nd d)
            (perturb noise d (\<lambda>i j. vs ! (i * d + j)) nVert) = Inr st"
      and out: "out = output_nd st"
      by (auto simp: convhull_nd_build_def Let_def split: sum.splits)
    from d have "d + 1 \<le> CH_MAX_NUM_FACES"
      by (simp add: CH_MAX_NUM_FACES_def CONVHULL_ND_MAX_DIMENSIONS_def)
    from hull_engine_bound[OF e this] have "nFaces st \<le> CH_MAX_NUM_FACES" "aligned st"
      by simp_all
    with out show ?thesis by (simp add: output_nd_def nFaces_def aligned_def)
  qed
qed

lemma add_faces_error_iff:
  assumes "add_faces d plane points i hs (F, C, D) = Inr (r, err)"
    and "length F \<le> CH_MAX_NUM_FACES"
  shows "err \<longleftrightarrow> CH_MAX_NUM_FACES < length F + length hs"
  using assms
proof (induction hs arbitrary: F C D)
  case Nil
  then show ?case by auto
next
  case (Cons h hs)
  let ?nf = "take (d - 1) h @ [i]"
  from Cons.prems(1) obtain cfi dfi where
    pl: "face_plane d plane points ?nf = Inr (cfi, dfi)"
    by (auto simp: Let_def split: sum.splits)
  show ?case
  proof (cases "length (F @ [?nf]) > CH_MAX_NUM_FACES")
    case True
    with Cons.prems(1) pl show ?thesis by (auto simp: Let_def)
  next
    case False
    with Cons.prems(1) pl have rec:
      "add_faces d plane points i hs (F @ [?nf], C @ [cfi], D @ [dfi]) = Inr (r, err)"
      by (simp add: Let_def)
    from False have "length (F @ [?nf]) \<le> CH_MAX_NUM_FACES" by simp
    from Cons.IH[OF rec this] show ?thesis by simp
  qed
qed

subsection \<open>The loop after some iterations\<close>

lemma main_loop_prefix:
  assumes "loop_prefix d plane det points n st = Some s"
  shows "main_loop d plane det points st = main_loop d plane det points s"
  using assms
proof (induction n arbitrary: st)
  case 0
  then show ?case by simp
next
  case (Suc n)
  from Suc.prems have ne: "pleft st \<noteq> []" by (auto split: if_splits)
  with Suc.prems obtain st1 where it: "iteration d plane det points st = Inr st1"
    and e: "\<not> ERROR st1" and r: "loop_prefix d plane det points n st1 = Some s"
    by (auto split: sum.splits if_splits)
  from ne it e have "main_loop d plane det points st = main_loop d plane det points st1"
    by (subst main_loop.simps) simp
  with Suc.IH[OF r] show ?case by simp
qed

lemma main_loop_trips:
  assumes "loop_prefix d plane det points n st = Some s" "pleft s \<noteq> []"
    "iteration d plane det points s = Inr s'" "ERROR s'"
  shows "main_loop d plane det points st = Inr s'"
  using main_loop_prefix[OF assms(1)] main_loop_stops_on_error[OF assms(3,2,4)] by simp

lemma hull_engine_trips:
  assumes "find_span points [0..<d] = Inr spans"
    "initial_simplex d plane det points = Inr (F, C, D)"
    "loop_prefix d plane det points n
       \<lparr>faces = F, cf = C, df = D, pleft = initial_pleft d points spans, ERROR = False\<rparr> = Some s"
    "pleft s \<noteq> []" "iteration d plane det points s = Inr s'" "ERROR s'"
  shows "hull_engine d plane det points = Inr s'"
  using main_loop_trips[OF assms(3,4,5,6)] assms(1,2) by (simp add: hull_engine_def)

subsection \<open>Input checks\<close>

lemma find_span_Inl:
  "find_span points js = Inl e \<Longrightarrow> e = SpanError \<and> (\<exists>j \<in> set js. axis_span points j < span_threshold)"
  by (induction js) (auto simp: Let_def split: if_splits sum.splits)

lemma find_span_rejects:
  "\<exists>j \<in> set js. axis_span points j < span_threshold \<Longrightarrow> find_span points js = Inl SpanError"
proof (induction js)
  case Nil
  then show ?case by simp
next
  case (Cons j js)
  show ?case
  proof (cases "axis_span points j < span_threshold")
    case True
    then show ?thesis by (simp add: Let_def)
  next
    case False
    with Cons.prems have "\<exists>j \<in> set js. axis_span points j < span_threshold" by auto
    from Cons.IH[OF this] False show ?thesis by (simp add: Let_def)
  qed
qed

lemma hull_engine_rejects_span:
  assumes "j < d" "axis_span points j < span_threshold"
  shows "hull_engine d plane det points = Inl SpanError"
proof -
  from assms have "\<exists>j \<in> set [0..<d]. axis_span points j < span_threshold" by auto
  from find_span_rejects[OF this] show ?thesis by (simp add: hull_engine_def)
qed

lemma degenerate_input_rejected:
  "d \<le> 5 \<Longrightarrow> nVert \<le> d \<Longrightarrow>
     convhull_nd_build noise vsn nVert d =
       Inr \<lparr>out_faces = None, nOut_faces = 0, out_cf = None, out_df = None\<rparr>"
  "d \<le> 5 \<Longrightarrow> d < nVert \<Longrightarrow> j < d \<Longrightarrow>
     axis_span (perturb noise d (\<lambda>i j. vsn ! (i * d + j)) nVert) j < span_threshold \<Longrightarrow>
     convhull_nd_build noise vsn nVert d = Inl SpanError"
  "length vs < 3 \<Longrightarrow> convhull_3d_build noise vs = Inr \<lparr>out_faces = None, nOut_faces = 0\<rparr>"
  "3 \<le> length vs \<Longrightarrow> j < 3 \<Longrightarrow>
     axis_span (perturb noise 3 (\<lambda>i j. vertex_coord (vs ! i) j) (length vs)) j < span_threshold \<Longrightarrow>
     convhull_3d_build noise vs = Inl SpanError"
  by (simp_all add: convhull_nd_build_def convhull_3d_build_def CONVHULL_ND_MAX_DIMENSIONS_def
        hull_engine_rejects_span Let_def)


subsection \<open>The two builders on the same coordinates\<close>

lemma plane_nd_3: "plane_nd 3 = plane_3d"
  by (rule ext) (simp add: plane_nd_def)

lemma det_nd_3: "det_nd 3 = det_4x4"
  by (rule ext) (simp add: det_nd_def)

lemma flat_vertices_nth:
  assumes "i < length vs" "j < 3"
  shows "flat_vertices vs ! (i * 3 + j) = vertex_coord (vs ! i) j"
proof -
  have "flat_vertices vs ! (i * 3 + j) = map (\<lambda>(x, y, z). [x, y, z]) vs ! i ! j"
    unfolding flat_vertices_def using assms
    by (intro concat_nth_block) auto
  also have "\<dots> = vertex_coord (vs ! i) j"
    using assms by (cases "vs ! i") (auto simp: vertex_coord_def less_Suc_eq numeral_3_eq_3)
  finally show ?thesis .
qed

lemma perturb_flat:
  "perturb noise 3 (\<lambda>i j. flat_vertices vs ! (i * 3 + j)) (length vs) =
   perturb noise 3 (\<lambda>i j. vertex_coord (vs ! i) j) (length vs)"
  unfolding perturb_def
  by (intro map_cong refl arg_cong2[where f = "(@)"]) (simp add: flat_vertices_nth)

lemma builders_agree:
  assumes "length vs \<noteq> 3"
  shows "convhull_3d_build noise vs =
         map_sum id (\<lambda>r. \<lparr>out_faces = out_faces r, nOut_faces = nOut_faces r\<rparr>)
           (convhull_nd_build noise (flat_vertices vs) (length vs) 3)"
proof (cases "length vs < 3")
  case True
  then show ?thesis
    by (simp add: convhull_3d_build_def convhull_nd_build_def CONVHULL_ND_MAX_DIMENSIONS_def)
next
  case False
  with assms have "\<not> length vs \<le> 3" by simp
  with False show ?thesis
    by (auto simp: convhull_3d_build_def convhull_nd_build_def CONVHULL_ND_MAX_DIMENSIONS_def
          Let_def perturb_flat plane_nd_3 det_nd_3 output_3d_def output_nd_def split: sum.splits)
qed

subsection \<open>The Delaunay reduction\<close>

lemma fold_sum_squares:
  "fold (\<lambda>j w. w + f j) [0..<n] (a :: real) = a + (\<Sum>j\<leftarrow>[0..<n]. f j)"
  by (induction n) simp_all

lemma lift_points_height:
  assumes "i < nPoints"
  shows "lift_points noise points nPoints nd ! i ! nd =
         (\<Sum>j\<leftarrow>[0..<nd]. (points ! (i * nd + j) + (1 / 10000000) * noise (i * nd + j))\<^sup>2)"
    and "j < nd \<Longrightarrow> lift_points noise points nPoints nd ! i ! j =
         points ! (i * nd + j) + (1 / 10000000) * noise (i * nd + j)"
    and "length (lift_points noise points nPoints nd ! i) = nd + 1"
proof -
  let ?row = "map (\<lambda>j. points ! (i * nd + j) + (1 / 10000000) * noise (i * nd + j)) [0..<nd]"
  have r: "lift_points noise points nPoints nd ! i =
        ?row @ [fold (\<lambda>j w. w + ?row ! j * ?row ! j) [0..<nd] 0]"
    using assms by (simp add: lift_points_def Let_def del: upt_Suc)
  have "fold (\<lambda>j w. w + ?row ! j * ?row ! j) [0..<nd] 0 = (\<Sum>j\<leftarrow>[0..<nd]. ?row ! j * ?row ! j)"
    by (simp add: fold_sum_squares)
  also have "\<dots> = (\<Sum>j\<leftarrow>[0..<nd]. (points ! (i * nd + j) + (1 / 10000000) * noise (i * nd + j))\<^sup>2)"
    by (rule arg_cong[where f = sum_list], rule map_cong[OF refl]) (simp add: power2_eq_square)
  finally show "lift_points noise points nPoints nd ! i ! nd =
         (\<Sum>j\<leftarrow>[0..<nd]. (points ! (i * nd + j) + (1 / 10000000) * noise (i * nd + j))\<^sup>2)"
    by (simp add: r nth_append)
  show "lift_points noise points nPoints nd ! i ! j =
         points ! (i * nd + j) + (1 / 10000000) * noise (i * nd + j)" if "j < nd"
    using that by (simp add: r nth_append)
  show "length (lift_points noise points nPoints nd ! i) = nd + 1"
    by (simp add: r)
qed

lemma lift_points_height_nonneg:
  "i < nPoints \<Longrightarrow> 0 \<le> lift_points noise points nPoints nd ! i ! nd"
  unfolding lift_points_height(1) by (rule sum_list_nonneg) auto

lemma find_maxW_fold:
  assumes "\<forall>i<n. - 22300000000000 < (h i :: real)"
  shows "case fold (\<lambda>i (maxVal, maxW_idx). if h i > maxVal then (h i, int i) else (maxVal, maxW_idx))
               [0..<n] (- 22300000000000, - 1) of
           (mv, mi) \<Rightarrow>
             (n = 0 \<and> mi = - 1 \<and> mv = - 22300000000000) \<or>
             (0 \<le> mi \<and> nat mi < n \<and> mv = h (nat mi) \<and> (\<forall>i<n. h i \<le> mv) \<and>
              (\<forall>i<nat mi. h i < mv))"
  using assms
proof (induction n)
  case 0
  then show ?case by simp
next
  case (Suc n)
  obtain mv mi where f: "fold (\<lambda>i (maxVal, maxW_idx). if h i > maxVal then (h i, int i) else (maxVal, maxW_idx))
               [0..<n] (- 22300000000000, - 1) = (mv, mi)"
    by (cases "fold (\<lambda>i (maxVal, maxW_idx). if h i > maxVal then (h i, int i) else (maxVal, maxW_idx))
               [0..<n] (- 22300000000000, - 1)") auto
  from Suc.IH Suc.prems f have IH:
    "(n = 0 \<and> mi = - 1 \<and> mv = - 22300000000000) \<or>
     (0 \<le> mi \<and> nat mi < n \<and> mv = h (nat mi) \<and> (\<forall>i<n. h i \<le> mv) \<and> (\<forall>i<nat mi. h i < mv))"
    by simp
  from Suc.prems have hn: "- 22300000000000 < h n" by simp
  show ?case
  proof (cases "h n > mv")
    case True
    have "\<forall>i<n. h i < h n"
    proof (intro allI impI)
      fix i assume "i < n"
      with IH have "h i \<le> mv" by auto
      with True show "h i < h n" by linarith
    qed
    with True f show ?thesis by (auto simp: less_Suc_eq less_imp_le)
  next
    case False
    with IH hn have "0 \<le> mi \<and> nat mi < n \<and> mv = h (nat mi) \<and> (\<forall>i<n. h i \<le> mv) \<and> (\<forall>i<nat mi. h i < mv)"
      by auto
    with False f show ?thesis by (auto simp: less_Suc_eq)
  qed
qed

lemma find_maxW_max:
  assumes "0 < nPoints"
  shows "\<exists>m<nPoints. snd (find_maxW (lift_points noise points nPoints nd) nPoints nd) = int m \<and>
           (\<forall>i<nPoints. lift_points noise points nPoints nd ! i ! nd
                \<le> lift_points noise points nPoints nd ! m ! nd) \<and>
           (\<forall>i<m. lift_points noise points nPoints nd ! i ! nd
                < lift_points noise points nPoints nd ! m ! nd)"
proof -
  let ?h = "\<lambda>i. lift_points noise points nPoints nd ! i ! nd"
  have "\<forall>i<nPoints. - 22300000000000 < ?h i"
  proof (intro allI impI)
    fix i assume "i < nPoints"
    from lift_points_height_nonneg[OF this, of noise points nd]
    show "- 22300000000000 < lift_points noise points nPoints nd ! i ! nd" by linarith
  qed
  from find_maxW_fold[of nPoints ?h, OF this] assms
  obtain mv mi where "find_maxW (lift_points noise points nPoints nd) nPoints nd = (mv, mi)"
    "0 \<le> mi" "nat mi < nPoints" "mv = ?h (nat mi)" "\<forall>i<nPoints. ?h i \<le> mv" "\<forall>i<nat mi. ?h i < mv"
    unfolding find_maxW_def by (auto split: prod.splits)
  then show ?thesis by (intro exI[of _ "nat mi"]) auto
qed

lemma find_maxW_empty: "snd (find_maxW proj 0 nd) = - 1"
  by (simp add: find_maxW_def)

lemma synthetic_point_eq:
  "synthetic_point proj m nd =
     replicate nd 0 @
       [(proj ! m ! nd - (\<Sum>j\<leftarrow>[0..<nd]. 2 * (proj ! m ! j)\<^sup>2))
         - 1000 * \<bar>proj ! m ! nd - (\<Sum>j\<leftarrow>[0..<nd]. 2 * (proj ! m ! j)\<^sup>2)\<bar>]"
proof -
  have u: "(replicate (nd + 1) (0 :: real))[nd := w] = replicate nd 0 @ [w]" for w
    by (simp add: replicate_append_same[symmetric] list_update_append)
  have s: "fold (\<lambda>j w. w + 2 * (map (\<lambda>j. proj ! m ! j) [0..<nd] ! j)\<^sup>2) [0..<nd] 0 =
           (\<Sum>j\<leftarrow>[0..<nd]. 2 * (proj ! m ! j)\<^sup>2)"
    unfolding fold_sum_squares
    by (simp, rule arg_cong[where f = sum_list], rule map_cong[OF refl]) simp
  show ?thesis
    unfolding synthetic_point_def Let_def s u ..
qed

lemma index_filter_zip:
  assumes "length C = length F" "length D = length F"
  shows "map (\<lambda>i. F ! i) (filter (\<lambda>i. P (C ! i) (D ! i)) [0..<length F]) =
         map fst (filter (\<lambda>(f, c, dk). P c dk) (zip F (zip C D)))"
proof -
  have z: "zip F (zip C D) = map (\<lambda>i. (F ! i, C ! i, D ! i)) [0..<length F]"
    using assms by (intro nth_equalityI) simp_all
  show ?thesis
    unfolding z by (simp add: filter_map comp_def)
qed

lemma delaunay_result:
  assumes "delaunay_nd_mesh noise points nPoints nd io = Inr io'"
  obtains res m where
    "convhull_nd_build (\<lambda>k. noise (nPoints * nd + k))
        (concat (lift_points noise points nPoints nd)) nPoints (nd + 1) = Inr res"
    "m < nPoints" "snd (find_maxW (lift_points noise points nPoints nd) nPoints nd) = int m"
    "\<forall>i<nPoints. lift_points noise points nPoints nd ! i ! nd
                \<le> lift_points noise points nPoints nd ! m ! nd"
    "nMesh io' = length (lower_hull_faces nd (synthetic_point (lift_points noise points nPoints nd) m nd)
                   (array_of (out_faces res)) (array_of (out_cf res)) (array_of (out_df res)))"
    "lower_hull_faces nd (synthetic_point (lift_points noise points nPoints nd) m nd)
                   (array_of (out_faces res)) (array_of (out_cf res)) (array_of (out_df res)) \<noteq> [] \<Longrightarrow>
     Mesh io' = Some (lower_hull_faces nd (synthetic_point (lift_points noise points nPoints nd) m nd)
                   (array_of (out_faces res)) (array_of (out_cf res)) (array_of (out_df res)))"
    "lower_hull_faces nd (synthetic_point (lift_points noise points nPoints nd) m nd)
                   (array_of (out_faces res)) (array_of (out_cf res)) (array_of (out_df res)) = [] \<Longrightarrow>
     Mesh io' = Mesh io"
proof -
  let ?proj = "lift_points noise points nPoints nd"
  from assms obtain res where
    res: "convhull_nd_build (\<lambda>k. noise (nPoints * nd + k)) (concat ?proj) nPoints (nd + 1) = Inr res"
    by (auto simp: delaunay_nd_mesh_def Let_def split: sum.splits)
  from assms res have ne: "snd (find_maxW ?proj nPoints nd) \<noteq> - 1"
    by (auto simp: delaunay_nd_mesh_def Let_def split: if_splits)
  then have pos: "0 < nPoints" using find_maxW_empty[of ?proj nd] by (cases nPoints) auto
  from find_maxW_max[OF pos, of noise points nd] obtain m where
    m: "m < nPoints" "snd (find_maxW ?proj nPoints nd) = int m"
       "\<forall>i<nPoints. ?proj ! i ! nd \<le> ?proj ! m ! nd"
    by blast
  let ?p = "synthetic_point ?proj m nd"
  let ?F = "array_of (out_faces res)" and ?C = "array_of (out_cf res)" and ?D = "array_of (out_df res)"
  let ?n = "nOut_faces res"
  from convhull_nd_build_bound[OF res]
  have len: "length ?F = ?n" "length ?C = ?n" "length ?D = ?n"
    by (auto simp: array_of_def split: option.splits)
  let ?P = "\<lambda>c dk. dot (nd + 1) c ?p + dk > 0"
  let ?visible = "map (\<lambda>i. dot (nd + 1) (?C ! i) ?p + ?D ! i) [0..<?n]"
  have idx: "filter (\<lambda>i. ?visible ! i > 0) [0..<?n] = filter (\<lambda>i. ?P (?C ! i) (?D ! i)) [0..<?n]"
    by (rule filter_cong) simp_all
  have vis: "map (\<lambda>i. ?F ! i) (filter (\<lambda>i. ?visible ! i > 0) [0..<?n]) = lower_hull_faces nd ?p ?F ?C ?D"
    unfolding idx lower_hull_faces_def
    using index_filter_zip[of ?C ?F ?D ?P] len by simp
  have cnt: "length (filter (\<lambda>v. v > 0) ?visible) = length (lower_hull_faces nd ?p ?F ?C ?D)"
  proof -
    have "length (filter (\<lambda>v. v > 0) ?visible) = length (filter (\<lambda>i. ?P (?C ! i) (?D ! i)) [0..<?n])"
      by (simp add: filter_map comp_def)
    also have "\<dots> = length (map (\<lambda>i. ?F ! i) (filter (\<lambda>i. ?visible ! i > 0) [0..<?n]))"
      unfolding idx by simp
    finally show ?thesis unfolding vis .
  qed
  have nm: "(int m = - 1) = False" by simp
  have e: "delaunay_nd_mesh noise points nPoints nd io =
             (if length (filter (\<lambda>v. v > 0) ?visible) > 0
              then Inr (io\<lparr>Mesh := Some (map (\<lambda>i. ?F ! i) (filter (\<lambda>i. ?visible ! i > 0) [0..<?n])),
                        nMesh := length (filter (\<lambda>v. v > 0) ?visible)\<rparr>)
              else Inr (io\<lparr>nMesh := length (filter (\<lambda>v. v > 0) ?visible)\<rparr>))"
    unfolding delaunay_nd_mesh_def Let_def res sum.case m(2) nat_int nm if_False ..
  have io': "io' = (if length (filter (\<lambda>v. v > 0) ?visible) > 0
                then io\<lparr>Mesh := Some (map (\<lambda>i. ?F ! i) (filter (\<lambda>i. ?visible ! i > 0) [0..<?n])),
                        nMesh := length (filter (\<lambda>v. v > 0) ?visible)\<rparr>
                else io\<lparr>nMesh := length (filter (\<lambda>v. v > 0) ?visible)\<rparr>)"
    using assms unfolding e by (simp only: split: if_splits) auto
  show ?thesis
  proof (rule that[OF res m(1) m(2) m(3)])
    show "nMesh io' = length (lower_hull_faces nd ?p ?F ?C ?D)"
      unfolding io' using cnt by simp
    show "Mesh io' = Some (lower_hull_faces nd ?p ?F ?C ?D)" if "lower_hull_faces nd ?p ?F ?C ?D \<noteq> []"
      unfolding io' using cnt vis that by simp
    show "Mesh io' = Mesh io" if "lower_hull_faces nd ?p ?F ?C ?D = []"
      unfolding io' using cnt that by simp
  qed
qed

subsection \<open>Validity of the facet table\<close>

lemma swap_row_valid:
  assumes "valid_face d n f" "2 \<le> d"
  shows "valid_face d n (f[d - 1 := f ! (d - 2), d - 2 := f ! (d - 1)]) \<and>
         set (f[d - 1 := f ! (d - 2), d - 2 := f ! (d - 1)]) = set f"
proof -
  from assms have l: "d - 1 < length f" "d - 2 < length f" by (simp_all add: valid_face_def)
  from set_swap[OF l] distinct_swap[OF l] assms(1) show ?thesis
    by (simp add: valid_face_def)
qed

lemma flip_face_rows_ok:
  assumes f: "flip_face d k T = Inr T1" and k: "k < length (fst T)" and ok: "rows_ok d n S T"
  shows "rows_ok d n S T1 \<and> length (fst T1) = length (fst T)"
proof -
  obtain F C D where T: "T = (F, C, D)" by (cases T) auto
  obtain F1 C1 D1 where T1: "T1 = (F1, C1, D1)" by (cases T1) auto
  from flip_face_result[OF f[unfolded T T1]] have sw: "swap_last2 d k F = Inr F1" by simp
  from k have kF: "k < length F" by (simp add: T)
  from ok have rows: "\<And>g. g \<in> set F \<Longrightarrow> valid_face d n g \<and> set g \<inter> S = {}"
    by (simp add: rows_ok_def T)
  from kF have rk: "valid_face d n (F ! k) \<and> set (F ! k) \<inter> S = {}" by (intro rows nth_mem)
  note len = swap_last2_length[OF sw]
  have "\<forall>g \<in> set F1. valid_face d n g \<and> set g \<inter> S = {}"
  proof (cases "2 \<le> d")
    case True
    let ?r = "(F ! k)[d - 1 := F ! k ! (d - 2), d - 2 := F ! k ! (d - 1)]"
    from sw swap_last2_row[OF True, of k F] have F1: "F1 = F[k := ?r]" by simp
    from swap_row_valid[OF _ True, of n "F ! k"] rk
    have r: "valid_face d n ?r \<and> set ?r \<inter> S = {}" by simp
    show ?thesis
    proof
      fix g assume "g \<in> set F1"
      then have "g \<in> insert ?r (set F)"
        unfolding F1 using set_update_subset_insert[of F k ?r] by blast
      with r rows show "valid_face d n g \<and> set g \<inter> S = {}" by auto
    qed
  next
    case False
    with swap_last2_dim[OF sw] have d1: "d = 1" by simp
    from swap_last2_rows[OF sw[unfolded d1]] have k0: "0 < k"
      and F1: "F1 = F[k := (F ! k)[0 := F ! (k - 1) ! 0], k - 1 := (F ! (k - 1))[0 := F ! k ! 0]]"
      by simp_all
    from k0 kF have k1: "k - 1 < length F" by simp
    then have rk1: "valid_face d n (F ! (k - 1)) \<and> set (F ! (k - 1)) \<inter> S = {}"
      by (intro rows nth_mem)
    have single: "g[0 := h ! 0] = h" if "length g = 1" "length h = 1" for g h :: "nat list"
    proof -
      from that obtain x y where "g = [x]" "h = [y]"
        by (cases g; cases h) auto
      then show ?thesis by simp
    qed
    from rk rk1 have e: "(F ! k)[0 := F ! (k - 1) ! 0] = F ! (k - 1)"
      "(F ! (k - 1))[0 := F ! k ! 0] = F ! k"
      by (simp_all add: single valid_face_def d1)
    have F1': "F1 = F[k := F ! (k - 1), k - 1 := F ! k]" unfolding F1 e ..
    show ?thesis
    proof
      fix g assume "g \<in> set F1"
      then have "g \<in> insert (F ! k) (set (F[k := F ! (k - 1)]))"
        unfolding F1' using set_update_subset_insert[of "F[k := F ! (k - 1)]" "k - 1" "F ! k"]
        by blast
      then have "g \<in> insert (F ! k) (insert (F ! (k - 1)) (set F))"
        using set_update_subset_insert[of F k "F ! (k - 1)"] by blast
      with rk rk1 rows show "valid_face d n g \<and> set g \<inter> S = {}" by auto
    qed
  qed
  with len show ?thesis by (simp add: rows_ok_def T1 T)
qed

lemma ismember_flags:
  "map fst (filter (\<lambda>(g, fl). fl \<noteq> 0) (zip g (ismember g fs))) = filter (\<lambda>x. x \<in> set fs) g"
  by (induction g) (auto simp: ismember_def)

lemma ismember_sum:
  "sum_list (ismember g fs) = length (filter (\<lambda>x. x \<in> set fs) g)"
  by (induction g) (auto simp: ismember_def)

lemma horizon_ridge:
  assumes "h \<in> set (horizon_of d fcs visible nv)"
  obtains v k where "v \<in> set visible" "k < length nv"
    "h = filter (\<lambda>x. x \<in> set (fcs ! v)) (nv ! k)" "Suc (length h) = d"
proof -
  define f0 where "f0 = (\<lambda>v. map (\<lambda>g. ismember g (sort_int (fcs ! v))) nv)"
  define row where
    "row = (\<lambda>v k. map fst (filter (\<lambda>(g, fl). fl \<noteq> 0) (zip (nv ! k) (f0 v ! k))))"
  define u where
    "u = (\<lambda>v. filter (\<lambda>k. int (sum_list (f0 v ! k)) = int d - 1) [0..<length nv])"
  have eq: "horizon_of d fcs visible nv = concat (map (\<lambda>v. map (row v) (u v)) visible)"
    unfolding horizon_of_def Let_def row_def u_def f0_def ..
  from assms obtain v k where v: "v \<in> set visible" and k: "k \<in> set (u v)" and h: "h = row v k"
    unfolding eq by auto
  from k have kl: "k < length nv"
    and s: "int (sum_list (f0 v ! k)) = int d - 1" by (simp_all add: u_def)
  from kl have f0: "f0 v ! k = ismember (nv ! k) (sort_int (fcs ! v))" by (simp add: f0_def)
  have h': "h = filter (\<lambda>x. x \<in> set (fcs ! v)) (nv ! k)"
    unfolding h row_def f0 ismember_flags by (simp add: sort_int_def)
  from s have "int (length h) = int d - 1"
    unfolding f0 ismember_sum h' by (simp add: sort_int_def)
  then have "Suc (length h) = d" by linarith
  with v kl h' show ?thesis by (rule that)
qed

lemma new_face_valid:
  assumes h: "h \<in> set (horizon_of d fcs visible nv)"
    and nv: "\<forall>g \<in> set nv. valid_face d n g \<and> set g \<inter> set (i # rest) = {}"
    and i: "i < n" "i \<notin> set rest"
  shows "valid_face d n (take (d - 1) h @ [i]) \<and> set (take (d - 1) h @ [i]) \<inter> set rest = {}"
proof -
  from h obtain v k where k: "k < length nv"
    and hk: "h = filter (\<lambda>x. x \<in> set (fcs ! v)) (nv ! k)" and l: "Suc (length h) = d"
    by (rule horizon_ridge)
  from k nv have g: "valid_face d n (nv ! k)" "set (nv ! k) \<inter> set (i # rest) = {}"
    by (auto dest: nth_mem)
  from l have tk: "take (d - 1) h = h" by auto
  have sub: "set h \<subseteq> set (nv ! k)" unfolding hk by auto
  from g(1) have dh: "distinct h" unfolding hk by (simp add: valid_face_def)
  from sub g(2) have ih: "i \<notin> set h" "set h \<inter> set rest = {}" by auto
  from sub g(1) have bd: "\<forall>x \<in> set h. x < n" by (auto simp: valid_face_def)
  show ?thesis
    unfolding tk valid_face_def using l dh ih bd i by auto
qed

lemma iteration_faces_inv:
  assumes it: "iteration d plane det points st = Inr st'" and ne: "pleft st \<noteq> []"
    and inv: "faces_inv d n st"
  shows "faces_inv d n st'"
proof -
  from ne obtain i rest where p: "pleft st = i # rest" by (cases "pleft st") auto
  from inv p have old: "\<forall>f \<in> set (faces st). valid_face d n f \<and> set f \<inter> set (i # rest) = {}"
    and dr: "distinct rest" "i \<notin> set rest" and bi: "i < n" and br: "\<forall>v \<in> set rest. v < n"
    by (auto simp: faces_inv_def)
  from it p show ?thesis
  proof (cases rule: iteration_cases)
    case interior
    from old dr br show ?thesis unfolding interior(3) faces_inv_def by auto
  next
    case (insert keep vis F C D err F' C' D')
    let ?F0 = "map (\<lambda>j. faces st ! j) keep"
    let ?hs = "horizon_of d (faces st) vis ?F0"
    have keep: "\<forall>j \<in> set keep. j < length (faces st)"
      unfolding insert(3) by (auto simp: nFaces_def)
    then have F0: "\<forall>g \<in> set ?F0. valid_face d n g \<and> set g \<inter> set (i # rest) = {}"
      using old by auto
    note r = add_faces_result[OF insert(4)]
    have okF: "rows_ok d n (set rest) (F, C, D)"
    proof (cases err)
      case True
      with r show ?thesis by (simp add: rows_ok_def)
    next
      case False
      with r have lF: "length F = length keep + length ?hs" and tF: "take (length keep) F = ?F0"
        by simp_all
      from insert(4) False have add: "add_faces d plane points i ?hs
         (?F0, map (\<lambda>j. cf st ! j) keep, map (\<lambda>j. df st ! j) keep) = Inr ((F, C, D), False)"
        by simp
      have "valid_face d n g \<and> set g \<inter> set rest = {}" if g: "g \<in> set F" for g
      proof -
        from g obtain j where j: "j < length F" and gj: "g = F ! j"
          by (auto simp: in_set_conv_nth)
        show ?thesis
        proof (cases "j < length keep")
          case True
          then have "F ! j = take (length keep) F ! j" by simp
          also have "\<dots> = ?F0 ! j" unfolding tF ..
          finally have "g = ?F0 ! j" unfolding gj .
          moreover from True have "?F0 ! j \<in> set ?F0" by (intro nth_mem) simp
          ultimately have "g \<in> set ?F0" by simp
          with F0 show ?thesis by auto
        next
          case False
          define m where "m = j - length keep"
          from False j lF have m: "m < length ?hs" and jm: "j = length ?F0 + m"
            by (simp_all add: m_def)
          from add_faces_new[OF add _ _ m] have "F ! j = take (d - 1) (?hs ! m) @ [i]"
            unfolding jm by simp
          moreover from m have "?hs ! m \<in> set ?hs" by (rule nth_mem)
          from new_face_valid[OF this F0 bi dr(2)]
          have "valid_face d n (take (d - 1) (?hs ! m) @ [i]) \<and>
                set (take (d - 1) (?hs ! m) @ [i]) \<inter> set rest = {}" .
          ultimately show ?thesis unfolding gj by simp
        qed
      qed
      then show ?thesis by (simp add: rows_ok_def)
    qed
    let ?Q = "\<lambda>T. rows_ok d n (set rest) T \<and> length (fst T) = length F"
    have "?Q (F', C', D')"
    proof (rule orient_new_faces_invariant[where Q = ?Q, OF insert(5)])
      from okF show "?Q (F, C, D)" by simp
    next
      fix k T T1
      assume a: "k \<in> set [length keep..<length F]" "?Q T" "flip_face d k T = Inr T1"
      then have "k < length (fst T)" by simp
      from flip_face_rows_ok[OF a(3) this, of n "set rest"] a(2) show "?Q T1" by simp
    qed
    with dr br show ?thesis unfolding insert(6) faces_inv_def rows_ok_def by simp
  qed
qed

lemma sort_float_perm:
  "set (sort_float xs) = {0..<length xs} \<and> distinct (sort_float xs)"
proof -
  let ?z = "zip xs [0..<length xs]"
  let ?s = "sort_key (\<lambda>(v, i). - v) ?z"
  have ms: "map snd ?z = [0..<length xs]" by simp
  have dz: "distinct ?z" by (simp add: distinct_zipI2)
  have inj: "inj_on snd (set ?z)"
    using distinct_map[of snd ?z] unfolding ms by simp
  have "distinct (map snd ?s)"
    unfolding distinct_map using dz inj by simp
  moreover have "set (map snd ?s) = set (map snd ?z)" by (simp only: set_map set_sort)
  then have "set (map snd ?s) = {0..<length xs}" by (simp only: ms set_upt)
  ultimately show ?thesis unfolding sort_float_def by simp
qed

lemma initial_pleft_range:
  "distinct (initial_pleft d points spans) \<and>
   (\<forall>v \<in> set (initial_pleft d points spans). d < v \<and> v < length points)"
proof -
  define reldist where "reldist =
     map (\<lambda>a. fold (\<lambda>j s. s + (a ! j)\<^sup>2) [0..<d] 0)
       (map (\<lambda>i. map (\<lambda>j. (points ! i ! j -
            map (\<lambda>j. fold (\<lambda>i m. m + points ! i ! j) [d + 1..<length points] 0
                              / real (length points - d - 1)) [0..<d] ! j) / spans ! j) [0..<d])
                        [d + 1..<length points])"
  have eq: "initial_pleft d points spans = map (\<lambda>x. x + d + 1) (sort_float reldist)"
    unfolding initial_pleft_def Let_def reldist_def ..
  have l: "length reldist = length points - (d + 1)" by (simp add: reldist_def)
  from sort_float_perm[of reldist]
  have s: "set (sort_float reldist) = {0..<length points - (d + 1)}" "distinct (sort_float reldist)"
    unfolding l by simp_all
  have "distinct (map (\<lambda>x. x + d + 1) (sort_float reldist))"
    unfolding distinct_map using s(2) by (simp add: inj_on_def)
  moreover have "\<forall>v \<in> set (map (\<lambda>x. x + d + 1) (sort_float reldist)). d < v \<and> v < length points"
    unfolding set_map s(1) by auto
  ultimately show ?thesis unfolding eq by simp
qed

lemma simplex_face_valid:
  assumes "f \<in> set (simplex_faces d)"
  shows "length f = d \<and> distinct f \<and> (\<forall>v \<in> set f. v \<le> d)"
proof -
  from assms obtain i where i: "i < d + 1" and f: "f = filter (\<lambda>j. j \<noteq> i) [0..<d + 1]"
    unfolding simplex_faces_def set_map by (auto simp del: upt_Suc)
  from filter_neq_upt[OF i] have "f = [0..<i] @ [Suc i..<d + 1]" unfolding f .
  with i show ?thesis by auto
qed

lemma simplex_planes_in_bounds:
  assumes "simplex_planes d plane points fs = Inr pls" "f \<in> set fs" "v \<in> set f"
  shows "v < length points"
  using assms
proof (induction fs arbitrary: pls)
  case Nil
  then show ?case by simp
next
  case (Cons g gs)
  from Cons.prems(1) obtain pl pls' where
    g: "face_plane d plane points g = Inr pl"
    and gs: "simplex_planes d plane points gs = Inr pls'"
    by (auto split: sum.splits)
  show ?case
  proof (cases "f = g")
    case True
    from g obtain rows where rows: "point_rows points g = Inr rows"
      by (auto simp: face_plane_def split: sum.splits)
    from Cons.prems(3) True obtain k where "k < length g" "g ! k = v"
      by (auto simp: in_set_conv_nth)
    with point_rows_nth[OF rows, of k] show ?thesis by simp
  next
    case False
    with Cons.prems(2) have "f \<in> set gs" by simp
    from Cons.IH[OF gs this Cons.prems(3)] show ?thesis .
  qed
qed

lemma initial_simplex_valid:
  assumes "initial_simplex d plane det points = Inr (F, C, D)" "f \<in> set F"
  shows "valid_face d (length points) f \<and> (\<forall>v \<in> set f. v \<le> d)"
proof -
  from assms(1) obtain pls where
    pls: "simplex_planes d plane points (simplex_faces d) = Inr pls"
    and o: "orient_simplex d det points [0..<d + 1] (simplex_faces d, map fst pls, map snd pls)
              = Inr (F, C, D)"
    by (auto simp: initial_simplex_def split: sum.splits)
  let ?S = "{v. d < v}"
  let ?Q = "\<lambda>T. rows_ok d (length points) ?S T \<and> length (fst T) = d + 1"
  have "?Q (F, C, D)"
  proof (rule orient_simplex_invariant[where Q = ?Q, OF o])
    have "valid_face d (length points) g \<and> set g \<inter> ?S = {}" if "g \<in> set (simplex_faces d)" for g
      using simplex_face_valid[OF that] simplex_planes_in_bounds[OF pls that]
      by (auto simp: valid_face_def)
    then show "?Q (simplex_faces d, map fst pls, map snd pls)"
      by (simp add: rows_ok_def length_simplex_faces)
  next
    fix k T T1
    assume a: "k \<in> set [0..<d + 1]" "?Q T" "flip_face d k T = Inr T1"
    then have "k < length (fst T)" by auto
    from flip_face_rows_ok[OF a(3) this, of "length points" ?S] a(2) show "?Q T1" by simp
  qed
  with assms(2) have "valid_face d (length points) f" "set f \<inter> ?S = {}"
    by (simp_all add: rows_ok_def)
  then show ?thesis by (auto simp: not_less[symmetric])
qed

lemma hull_engine_faces_inv:
  assumes "hull_engine d plane det points = Inr st"
  shows "faces_inv d (length points) st"
proof -
  from assms obtain spans F C D where
    s: "initial_simplex d plane det points = Inr (F, C, D)"
    and m: "main_loop d plane det points
              \<lparr>faces = F, cf = C, df = D, pleft = initial_pleft d points spans, ERROR = False\<rparr>
            = Inr st"
    by (rule hull_engine_result)
  let ?st0 = "\<lparr>faces = F, cf = C, df = D, pleft = initial_pleft d points spans, ERROR = False\<rparr>"
  note pl = initial_pleft_range[of d points spans]
  have "\<forall>f \<in> set F. valid_face d (length points) f \<and>
           set f \<inter> set (initial_pleft d points spans) = {}"
  proof
    fix f assume "f \<in> set F"
    from initial_simplex_valid[OF s this] pl
    show "valid_face d (length points) f \<and> set f \<inter> set (initial_pleft d points spans) = {}"
      by fastforce
  qed
  with pl have i0: "faces_inv d (length points) ?st0" by (simp add: faces_inv_def)
  show ?thesis
    by (rule main_loop_invariant[where I = "faces_inv d (length points)", OF m i0])
       (rule iteration_faces_inv)
qed

lemma length_perturb: "length (perturb noise d vertex nVert) = nVert"
  by (simp add: perturb_def)

subsection \<open>The facet ceiling\<close>

lemma hull_engine_ceiling:
  assumes "ceiling_trips d plane det points n"
  shows "\<exists>s'. hull_engine d plane det points = Inr s' \<and> ERROR s'"
proof -
  from assms obtain spans where s: "find_span points [0..<d] = Inr spans"
    unfolding ceiling_trips_def by (auto split: sum.splits)
  from assms s obtain T where T: "initial_simplex d plane det points = Inr T"
    unfolding ceiling_trips_def by (auto split: sum.splits)
  obtain F C D where T': "T = (F, C, D)" by (cases T) auto
  let ?st0 = "\<lparr>faces = F, cf = C, df = D, pleft = initial_pleft d points spans, ERROR = False\<rparr>"
  from assms s T obtain st where p: "loop_prefix d plane det points n ?st0 = Some st"
    unfolding ceiling_trips_def T' by (auto split: option.splits)
  from assms s T p obtain s' where ne: "pleft st \<noteq> []"
    and it: "iteration d plane det points st = Inr s'" and e: "ERROR s'"
    unfolding ceiling_trips_def T' by (auto split: sum.splits)
  from hull_engine_trips[OF s T[unfolded T'] p ne it e] e show ?thesis by blast
qed

lemma iteration_error_iff:
  assumes it: "iteration d plane det points s = Inr s'" and p: "pleft s = i # rest"
    and b: "nFaces s \<le> CH_MAX_NUM_FACES" and e: "\<not> ERROR s"
  shows "ERROR s' \<longleftrightarrow>
         CH_MAX_NUM_FACES <
           length (filter (\<lambda>j. \<not> dot d (take d (points ! i)) (cf s ! j) + df s ! j > 0)
                     [0..<nFaces s]) +
           length (horizon_of d (faces s)
                     (filter (\<lambda>j. dot d (take d (points ! i)) (cf s ! j) + df s ! j > 0)
                        [0..<nFaces s])
                     (map (\<lambda>j. faces s ! j)
                        (filter (\<lambda>j. \<not> dot d (take d (points ! i)) (cf s ! j) + df s ! j > 0)
                           [0..<nFaces s])))"
proof -
  let ?P = "\<lambda>j. dot d (take d (points ! i)) (cf s ! j) + df s ! j > 0"
  from it p show ?thesis
  proof (cases rule: iteration_cases)
    case interior
    then have v: "filter ?P [0..<nFaces s] = []" "filter (\<lambda>j. \<not> ?P j) [0..<nFaces s] = [0..<nFaces s]"
      by (auto simp: filter_empty_conv)
    have h: "horizon_of d (faces s) [] nv = []" for nv by (simp add: horizon_of_def)
    from interior(3) e b show ?thesis unfolding v h by simp
  next
    case (insert keep vis F C D err F' C' D')
    have "length keep \<le> length [0..<nFaces s]"
      unfolding insert(3) by (rule length_filter_le)
    with b have k: "length keep \<le> CH_MAX_NUM_FACES" by simp
    from add_faces_error_iff[OF insert(4)] k
    have "err \<longleftrightarrow> CH_MAX_NUM_FACES < length keep +
             length (horizon_of d (faces s) vis (map (\<lambda>j. faces s ! j) keep))"
      by simp
    then show ?thesis unfolding insert(6) insert(2,3) by simp
  qed
qed

subsection \<open>No visible facet\<close>

lemma delaunay_none_visible:
  assumes pos: "0 < nPoints"
    and res: "convhull_nd_build (\<lambda>k. noise (nPoints * nd + k))
        (concat (lift_points noise points nPoints nd)) nPoints (nd + 1) = Inr res"
    and none: "lower_hull_faces nd
        (synthetic_point (lift_points noise points nPoints nd)
           (nat (snd (find_maxW (lift_points noise points nPoints nd) nPoints nd))) nd)
        (array_of (out_faces res)) (array_of (out_cf res)) (array_of (out_df res)) = []"
  shows "delaunay_nd_mesh noise points nPoints nd io = Inr (io\<lparr>nMesh := 0\<rparr>)"
proof -
  let ?proj = "lift_points noise points nPoints nd"
  from find_maxW_max[OF pos, of noise points nd] obtain m where
    m: "snd (find_maxW ?proj nPoints nd) = int m"
    by blast
  let ?p = "synthetic_point ?proj m nd"
  let ?F = "array_of (out_faces res)" and ?C = "array_of (out_cf res)" and ?D = "array_of (out_df res)"
  let ?n = "nOut_faces res"
  from convhull_nd_build_bound[OF res]
  have len: "length ?F = ?n" "length ?C = ?n" "length ?D = ?n"
    by (auto simp: array_of_def split: option.splits)
  let ?P = "\<lambda>c dk. dot (nd + 1) c ?p + dk > 0"
  let ?visible = "map (\<lambda>i. dot (nd + 1) (?C ! i) ?p + ?D ! i) [0..<?n]"
  have idx: "filter (\<lambda>i. ?visible ! i > 0) [0..<?n] = filter (\<lambda>i. ?P (?C ! i) (?D ! i)) [0..<?n]"
    by (rule filter_cong) simp_all
  have vis: "map (\<lambda>i. ?F ! i) (filter (\<lambda>i. ?visible ! i > 0) [0..<?n]) = lower_hull_faces nd ?p ?F ?C ?D"
    unfolding idx lower_hull_faces_def
    using index_filter_zip[of ?C ?F ?D ?P] len by simp
  have "length (filter (\<lambda>v. v > 0) ?visible) = length (filter (\<lambda>i. ?P (?C ! i) (?D ! i)) [0..<?n])"
    by (simp add: filter_map comp_def)
  also have "\<dots> = length (map (\<lambda>i. ?F ! i) (filter (\<lambda>i. ?visible ! i > 0) [0..<?n]))"
    unfolding idx by simp
  also have "\<dots> = 0" unfolding vis using none[unfolded m nat_int] by simp
  finally have cnt: "length (filter (\<lambda>v. v > 0) ?visible) = 0" .
  have nm: "(int m = - 1) = False" by simp
  show ?thesis
    unfolding delaunay_nd_mesh_def Let_def res sum.case m nat_int nm if_False cnt
    by simp
qed

lemma no_facet_none_visible:
  assumes res: "convhull_nd_build noise xs n d = Inr res" and z: "nOut_faces res = 0"
  shows "lower_hull_faces nd p (array_of (out_faces res)) (array_of (out_cf res))
           (array_of (out_df res)) = []"
proof -
  from convhull_nd_build_bound[OF res] z have "array_of (out_faces res) = []"
    by (auto simp: array_of_def split: option.splits)
  then show ?thesis by (simp add: lower_hull_faces_def)
qed

subsection \<open>Evaluation on concrete inputs\<close>

lemma sqrt_9: "sqrt 9 = 3"
  by (rule real_sqrt_unique) simp_all

lemmas hull_eval =
  hull_engine_def perturb_def vertex_coord_def upt_conv_Cons
  span_threshold_def axis_span_def CH_NOISE_VAL_def Let_def initial_simplex_def simplex_faces_def
  face_plane_def point_row_def orientation_det_def swap_last2_row flip_face_def
  plane_3d_def plane_nd_def pdiff_rows_def pdiff_sub_def numeral_3_eq_3 det_4x4_def det_nd_def
  initial_pleft_def sort_float_def nFaces_def
  iteration_def visible_ind_def dot_def horizon_of_def sort_int_def ismember_def
  orient_new_face_def CH_MAX_NUM_FACES_def CONVHULL_ND_MAX_DIMENSIONS_def
  main_loop.simps while_coplanar.simps output_3d_def output_nd_def

lemma tetra_3d:
  "convhull_3d_build (\<lambda>k. 0) [(0, 0, 0), (1, 0, 0), (0, 1, 0), (0, 0, 2)] =
     Inr \<lparr>out_faces = Some [[1, 2, 3], [0, 3, 2], [0, 1, 3], [0, 2, 1]], nOut_faces = 4\<rparr>"
  by (simp add: convhull_3d_build_def hull_eval sqrt_9)

lemma tetra_nd:
  "convhull_nd_build (\<lambda>k. 0) [0, 0, 0, 1, 0, 0, 0, 1, 0, 0, 0, 2] 4 3 =
     Inr \<lparr>out_faces = Some [[1, 2, 3], [0, 3, 2], [0, 1, 3], [0, 2, 1]], nOut_faces = 4,
          out_cf = Some [[2/3, 2/3, 1/3], [- 1, 0, 0], [0, - 1, 0], [0, 0, - 1]],
          out_df = Some [- 2/3, 0, 0, 0]\<rparr>"
  by (simp add: convhull_nd_build_def hull_eval sqrt_9)


lemma visible_ind_zip:
  assumes "length (cf st) = nFaces st" "length (df st) = nFaces st"
  shows "visible_ind d ps st = map (\<lambda>(c, dk). dot d ps c + dk > 0) (zip (cf st) (df st))"
  using assms by (intro nth_equalityI) (simp_all add: visible_ind_def del: upt_Suc)

lemma upt_0_Suc: "[0..<Suc n] = 0 # map Suc [0..<n]"
  by (simp add: upt_conv_Cons map_Suc_upt del: upt_Suc)

lemma filter_replicate_flag:
  "filter (\<lambda>j. replicate n False ! j) [0..<n] = []"
  "filter (\<lambda>j. \<not> replicate n False ! j) [0..<n] = [0..<n]"
  by (simp_all add: filter_empty_conv del: upt_Suc)

lemma filter_head_flag:
  "filter (\<lambda>j. (True # replicate n False) ! j) [0..<Suc n] = [0]"
  "filter (\<lambda>j. \<not> (True # replicate n False) ! j) [0..<Suc n] = map Suc [0..<n]"
  unfolding upt_0_Suc
  by (simp_all add: filter_map comp_def filter_replicate_flag del: upt_Suc)

lemma map_nth_tail_replicate:
  "map (\<lambda>j. (x # replicate n y) ! j) (map Suc [0..<n]) = replicate n y"
  by (intro nth_equalityI) (simp_all del: upt_Suc)

lemma map_nth_tail_replicate':
  "map ((!) (x # replicate n y) \<circ> Suc) [0..<n] = replicate n y"
  by (intro nth_equalityI) (simp_all del: upt_Suc)

lemma map_nth_replicate:
  "map (\<lambda>k. f (replicate n x ! k) (replicate n y ! k)) [0..<n] = replicate n (f x y)"
  by (intro nth_equalityI) (simp_all del: upt_Suc)

lemma filter_upt_all: "(\<And>k. k < n \<Longrightarrow> P k) \<Longrightarrow> filter P [0..<n] = [0..<n]"
  by (rule filter_True) simp


lemma filter_nth_replicate2:
  "filter (\<lambda>j. Q (replicate n x ! j) (replicate n y ! j)) [0..<n] = (if Q x y then [0..<n] else [])"
  by (auto simp: filter_empty_conv simp del: upt_Suc intro!: filter_True)

lemma filter_nth_replicate1:
  "filter (\<lambda>k. Q (replicate n x ! k)) [0..<n] = (if Q x then [0..<n] else [])"
  by (auto simp: filter_empty_conv simp del: upt_Suc intro!: filter_True)

lemma iteration_insertI:
  assumes "pleft st = i # rest" "i < length points"
    and "vis = filter (\<lambda>j. dot d (take d (points ! i)) (cf st ! j) + df st ! j > 0) [0..<nFaces st]"
    and "keep = filter (\<lambda>j. \<not> (dot d (take d (points ! i)) (cf st ! j) + df st ! j > 0)) [0..<nFaces st]"
    and "vis \<noteq> []"
    and "add_faces d plane points i (horizon_of d (faces st) vis (map (\<lambda>j. faces st ! j) keep))
         (map (\<lambda>j. faces st ! j) keep, map (\<lambda>j. cf st ! j) keep, map (\<lambda>j. df st ! j) keep)
        = Inr ((F, C, D), err)"
    and "orient_new_faces d det points (length F) [length keep..<length F] (F, C, D)
         = Inr (F', C', D')"
  shows "iteration d plane det points st =
         Inr \<lparr>faces = F', cf = C', df = D', pleft = rest, ERROR = err\<rparr>"
proof -
  let ?ps = "take d (points ! i)"
  let ?P = "\<lambda>j. dot d ?ps (cf st ! j) + df st ! j > 0"
  have row: "point_row points i = Inr (points ! i)"
    using assms(2) by (simp add: point_row_def)
  have nth: "visible_ind d ?ps st ! j = ?P j" if "j < nFaces st" for j
    using that by (simp add: visible_ind_def del: upt_Suc)
  have f1: "filter (\<lambda>j. visible_ind d ?ps st ! j) [0..<nFaces st] = vis"
    unfolding assms(3) by (rule filter_cong) (auto simp: nth)
  have f2: "filter (\<lambda>j. \<not> visible_ind d ?ps st ! j) [0..<nFaces st] = keep"
    unfolding assms(4) by (rule filter_cong) (auto simp: nth)
  from assms(5) obtain j where "j < nFaces st" "?P j"
    unfolding assms(3) by (auto simp: filter_empty_conv)
  then have nz: "length (filter (\<lambda>b. b) (visible_ind d ?ps st)) \<noteq> 0"
    by (auto simp: visible_ind_def filter_empty_conv simp del: upt_Suc)
  show ?thesis
    unfolding iteration_def assms(1) list.case row sum.case Let_def f1 f2
    using nz assms(6,7) by simp
qed

lemma dot_3: "dot 3 a b = a ! 0 * b ! 0 + a ! 1 * b ! 1 + a ! 2 * b ! 2"
  by (simp add: dot_def upt_conv_Cons numeral_2_eq_2)


lemma trip_iteration:
  "iteration 3 plane_3d det_4x4 ceiling_points ceiling_state = Inr \<lparr>faces = [], cf = [], df = [], pleft = [], ERROR = True\<rparr>"
proof -
  let ?P = "\<lambda>j. dot 3 (take 3 (ceiling_points ! 4)) (cf ceiling_state ! j) + df ceiling_state ! j > 0"
  have n: "nFaces ceiling_state = Suc 49999" by (simp add: nFaces_def ceiling_state_def)
  have vis: "filter ?P [0..<nFaces ceiling_state] = [0]"
    unfolding n upt_0_Suc
    by (simp add: ceiling_state_def ceiling_points_def dot_3 filter_map comp_def filter_empty_conv del: upt_Suc)
  have keep: "filter (\<lambda>j. \<not> ?P j) [0..<nFaces ceiling_state] = map Suc [0..<49999]"
    unfolding n upt_0_Suc
    by (simp add: ceiling_state_def ceiling_points_def dot_3 filter_map comp_def del: upt_Suc)
  have hor: "horizon_of 3 (faces ceiling_state) [0] (map (\<lambda>j. faces ceiling_state ! j) (map Suc [0..<49999])) =
             replicate 49999 [0, Suc 0]"
  proof -
    have m: "map (\<lambda>j. faces ceiling_state ! j) (map Suc [0..<49999]) = replicate 49999 [0, 2, 1]"
      unfolding ceiling_state_def by (simp add: map_nth_tail_replicate' del: upt_Suc)
    have fl: "ismember [0, 2, Suc 0] [0, Suc 0, 3] = [Suc 0, 0, Suc 0]"
      by (simp add: ismember_def)
    have u: "filter (\<lambda>k. sum_list (replicate 49999 [Suc 0, 0, Suc 0] ! k) = 2) [0..<49999] = [0..<49999]"
      by (subst filter_nth_replicate1[where Q = "\<lambda>fl. sum_list fl = 2"]) simp
    have r: "map (\<lambda>k. map fst (filter (\<lambda>(g, y). 0 < y)
                 (zip (replicate 49999 [0, 2, Suc 0] ! k) (replicate 49999 [Suc 0, 0, Suc 0] ! k))))
               [0..<49999] = replicate 49999 [0, Suc 0]"
      by (subst map_nth_replicate[where f = "\<lambda>g fl. map fst (filter (\<lambda>(g, y). 0 < y) (zip g fl))"])
         simp
    show ?thesis
      unfolding m horizon_of_def
      by (simp add: ceiling_state_def sort_int_def Let_def fl u r del: upt_Suc)
  qed
  have r2: "replicate 49999 x = x # x # replicate 49997 x" for x :: "'a"
  proof -
    have "(49999 :: nat) = Suc (Suc 49997)" by simp
    then show ?thesis by (simp only: replicate_Suc)
  qed
  have add: "add_faces 3 plane_3d ceiling_points 4 (replicate 49999 [0, Suc 0])
       (replicate 49999 [0, 2, 1], replicate 49999 [0, 0, - 1], replicate 49999 0) =
       Inr (([], [], []), True)"
    apply (subst r2[of "[0, Suc 0]"])
    apply (simp add: face_plane_def point_row_def ceiling_points_def CH_MAX_NUM_FACES_def split: prod.splits)
    done
  have m: "map (\<lambda>j. faces ceiling_state ! j) (map Suc [0..<49999]) = replicate 49999 [0, 2, 1]"
    "map (\<lambda>j. cf ceiling_state ! j) (map Suc [0..<49999]) = replicate 49999 [0, 0, - 1]"
    "map (\<lambda>j. df ceiling_state ! j) (map Suc [0..<49999]) = replicate 49999 0"
    unfolding ceiling_state_def by (simp_all add: map_nth_tail_replicate' del: upt_Suc)
  have p1: "pleft ceiling_state = 4 # []" by (simp add: ceiling_state_def)
  have p2: "4 < length ceiling_points" by (simp add: ceiling_points_def)
  have p3: "[0] = filter ?P [0..<nFaces ceiling_state]" by (simp only: vis)
  have p4: "map Suc [0..<49999] = filter (\<lambda>j. \<not> ?P j) [0..<nFaces ceiling_state]" by (simp only: keep)
  have p5: "[0 :: nat] \<noteq> []" by simp
  have p6: "add_faces 3 plane_3d ceiling_points 4
           (horizon_of 3 (faces ceiling_state) [0] (map (\<lambda>j. faces ceiling_state ! j) (map Suc [0..<49999])))
           (map (\<lambda>j. faces ceiling_state ! j) (map Suc [0..<49999]), map (\<lambda>j. cf ceiling_state ! j) (map Suc [0..<49999]),
            map (\<lambda>j. df ceiling_state ! j) (map Suc [0..<49999])) = Inr (([], [], []), True)"
    unfolding hor unfolding m by (rule add)
  have p7: "orient_new_faces 3 det_4x4 ceiling_points (length ([] :: nat list list))
              [length (map Suc [0..<49999])..<length ([] :: nat list list)] ([], [], [])
            = Inr ([], [], [])"
    by simp
  from iteration_insertI[OF p1 p2 p3 p4 p5 p6 p7]
  show ?thesis by simp
qed

lemma sqrt_rat: "0 \<le> y \<Longrightarrow> y * y = x \<Longrightarrow> sqrt x = y"
  by (rule real_sqrt_unique) (simp_all add: power2_eq_square)

lemma sqrt_vals:
  "sqrt (81 / 4) = 9 / 2" "sqrt (3249 / 256) = 57 / 16" "sqrt (225 / 256) = 15 / 16" "sqrt (81 / 16) = 9 / 4"
  by (rule sqrt_rat; simp)+


lemma lift_points_example: "lift_points (\<lambda>k. 0) delaunay_points 4 2 = lifted_points"
  by (simp add: lift_points_def delaunay_points_def lifted_points_def upt_conv_Cons Let_def)

lemma lifted_hull_example:
  "convhull_nd_build (\<lambda>k. 0) (concat lifted_points) 4 3 = Inr lifted_hull"
  by (simp add: lifted_points_def lifted_hull_def convhull_nd_build_def hull_eval power2_eq_square sqrt_vals)

lemma find_maxW_example: "find_maxW lifted_points 4 2 = (13/4, 2)"
  by (simp add: lifted_points_def find_maxW_def upt_conv_Cons)

lemma synthetic_point_example: "synthetic_point lifted_points 2 2 = [0, 0, - 13013/4]"
  by (simp add: lifted_points_def synthetic_point_def upt_conv_Cons Let_def numeral_3_eq_3 power2_eq_square)

lemma lower_hull_example:
  "lower_hull_faces 2 [0, 0, - 13013/4] (array_of (out_faces lifted_hull)) (array_of (out_cf lifted_hull))
      (array_of (out_df lifted_hull)) = [[1, 3, 2], [0, 3, 1]]"
  by (simp add: lower_hull_faces_def lifted_hull_def array_of_def dot_def upt_conv_Cons)

lemma delaunay_example:
  "delaunay_nd_mesh (\<lambda>k. 0) delaunay_points 4 2 \<lparr>Mesh = None, nMesh = 0\<rparr> =
     Inr \<lparr>Mesh = Some [[1, 3, 2], [0, 3, 1]], nMesh = 2\<rparr>"
proof -
  have n: "(2 :: nat) + 1 = 3" by simp
  have m: "nat (snd (13 / 4 :: real, 2 :: int)) = 2" "(snd (13 / 4 :: real, 2 :: int) = - 1) = False"
    by simp_all
  show ?thesis
    unfolding delaunay_nd_mesh_def lift_points_example Let_def n lifted_hull_example sum.case find_maxW_example m if_False synthetic_point_example
    by (simp add: lifted_hull_def array_of_def dot_def upt_conv_Cons)
qed

lemma swap_last2_one_dim:
  "swap_last2 1 0 F = Inl OutOfBounds"
  "swap_last2 1 1 [[1], [0]] = Inr [[0], [1]]"
  "swap_last2 0 k F = Inl OutOfBounds"
  "swap_last2 3 1 [[1, 2, 3], [0, 2, 3]] = Inr [[1, 2, 3], [0, 3, 2]]"
  by (simp_all add: swap_last2_def face_entry_def set_face_entry_def)

lemma one_dim_example: "convhull_nd_build (\<lambda>k. 0) [1, 0] 2 1 = Inl OutOfBounds"
  by (simp add: convhull_nd_build_def hull_eval swap_last2_def det_NxN.simps createSubMatrix_def)

section \<open>Claims about the main loop\<close>

text \<open>
  C8. An iteration whose popped point \<open>i\<close> is visible from no face (the product with every
  plane is at most 0) returns normally and leaves \<open>faces\<close>, \<open>cf\<close>, \<open>df\<close>, \<open>nFaces\<close> and
  \<open>ERROR\<close> as they were; the queue loses its first point. The statement holds for any
  dimension, plane routine and determinant, hence for both builders.
\<close>

theorem interior_point_frame:
  assumes "pleft st = i # rest" "i < length points"
    and "\<forall>j<nFaces st. dot d (take d (points ! i)) (cf st ! j) + df st ! j \<le> 0"
  shows "\<exists>st'. iteration d plane det points st = Inr st' \<and>
           faces st' = faces st \<and> cf st' = cf st \<and> df st' = df st \<and>
           nFaces st' = nFaces st \<and> ERROR st' = ERROR st \<and> pleft st' = rest"
proof -
  have "filter (\<lambda>b. b) (visible_ind d (take d (points ! i)) st) = []"
    using assms(3) by (auto simp: visible_ind_def filter_empty_conv not_less)
  then have "iteration d plane det points st = Inr (st\<lparr>pleft := rest\<rparr>)"
    using assms(1,2) by (simp add: iteration_def point_row_def Let_def)
  then show ?thesis by (simp add: nFaces_def)
qed

theorem interior_point_frame_witness:
  "pleft tetra_state = 4 # [] \<and> 4 < length interior_points \<and> nFaces tetra_state = 4 \<and>
   dot 3 (take 3 (interior_points ! 4)) (cf tetra_state ! 0) + df tetra_state ! 0 \<le> 0 \<and>
   dot 3 (take 3 (interior_points ! 4)) (cf tetra_state ! 1) + df tetra_state ! 1 \<le> 0 \<and>
   dot 3 (take 3 (interior_points ! 4)) (cf tetra_state ! 2) + df tetra_state ! 2 \<le> 0 \<and>
   dot 3 (take 3 (interior_points ! 4)) (cf tetra_state ! 3) + df tetra_state ! 3 \<le> 0 \<and>
   iteration 3 plane_3d det_4x4 interior_points tetra_state = Inr (tetra_state\<lparr>pleft := []\<rparr>)"
proof -
  have p: "pleft tetra_state = 4 # []" "4 < length interior_points"
    by (simp_all add: tetra_state_def interior_points_def)
  have n: "nFaces tetra_state = 4" by (simp add: nFaces_def tetra_state_def)
  have v: "dot 3 (take 3 (interior_points ! 4)) (cf tetra_state ! 0) + df tetra_state ! 0 \<le> 0"
    "dot 3 (take 3 (interior_points ! 4)) (cf tetra_state ! 1) + df tetra_state ! 1 \<le> 0"
    "dot 3 (take 3 (interior_points ! 4)) (cf tetra_state ! 2) + df tetra_state ! 2 \<le> 0"
    "dot 3 (take 3 (interior_points ! 4)) (cf tetra_state ! 3) + df tetra_state ! 3 \<le> 0"
    by (simp_all add: tetra_state_def interior_points_def dot_def upt_conv_Cons)
  have h: "\<forall>j<nFaces tetra_state.
      dot 3 (take 3 (interior_points ! 4)) (cf tetra_state ! j) + df tetra_state ! j \<le> 0"
    by (simp add: nFaces_def tetra_state_def interior_points_def dot_def upt_conv_Cons All_less_Suc)
  from interior_point_frame[OF p h, where plane = plane_3d and det = det_4x4]
  obtain st' where "iteration 3 plane_3d det_4x4 interior_points tetra_state = Inr st'"
    "faces st' = faces tetra_state" "cf st' = cf tetra_state" "df st' = df tetra_state"
    "ERROR st' = ERROR tetra_state" "pleft st' = []"
    by auto
  then have "iteration 3 plane_3d det_4x4 interior_points tetra_state = Inr (tetra_state\<lparr>pleft := []\<rparr>)"
    by (cases st') (simp add: tetra_state_def)
  with p n v show ?thesis by simp
qed

text \<open>
  C4. The facet ceiling. (1) \<open>add_faces\<close>, entered with at most 50000 faces, sets \<open>ERROR\<close>
  exactly when the kept faces and the new faces together exceed \<open>CH_MAX_NUM_FACES\<close>, and
  then leaves no face (\<open>nFaces = 0\<close>). (2) A pass through the loop body sets \<open>ERROR\<close> exactly
  when the faces it keeps and one new face per horizon ridge exceed the ceiling. (3) A pass
  that sets \<open>ERROR\<close>, after any number of passes that did not, ends with \<open>nFaces = 0\<close> and ends
  the main loop at once, and both output blocks store \<open>NULL\<close> and 0 (and \<open>NULL\<close> for \<open>out_cf\<close>
  and \<open>out_df\<close>). (4, 5) A call of either builder in which some pass trips the ceiling
  returns normally with the empty result. (6, 7) Whatever a builder returns is either the
  empty result or a facet list of at most 50000 rows with \<open>nOut_faces\<close> its length.
\<close>

theorem resource_ceiling:
  "(add_faces d plane points i hs (F, C, D) = Inr (r, err) \<longrightarrow>
      length C = length F \<longrightarrow> length D = length F \<longrightarrow> length F \<le> CH_MAX_NUM_FACES \<longrightarrow>
      (err \<longleftrightarrow> CH_MAX_NUM_FACES < length F + length hs) \<and> (err \<longrightarrow> r = ([], [], []))) \<and>
   (iteration d1 plane1 det1 points1 s1 = Inr s1' \<longrightarrow> pleft s1 = i1 # rest1 \<longrightarrow>
      nFaces s1 \<le> CH_MAX_NUM_FACES \<longrightarrow> \<not> ERROR s1 \<longrightarrow>
      (ERROR s1' \<longleftrightarrow>
         CH_MAX_NUM_FACES <
           length (filter (\<lambda>j. \<not> dot d1 (take d1 (points1 ! i1)) (cf s1 ! j) + df s1 ! j > 0)
                     [0..<nFaces s1]) +
           length (horizon_of d1 (faces s1)
                     (filter (\<lambda>j. dot d1 (take d1 (points1 ! i1)) (cf s1 ! j) + df s1 ! j > 0)
                        [0..<nFaces s1])
                     (map (\<lambda>j. faces s1 ! j)
                        (filter (\<lambda>j. \<not> dot d1 (take d1 (points1 ! i1)) (cf s1 ! j) + df s1 ! j > 0)
                           [0..<nFaces s1]))))) \<and>
   (loop_prefix d' plane' det' points' n st = Some s \<longrightarrow>
      iteration d' plane' det' points' s = Inr st' \<longrightarrow> pleft s \<noteq> [] \<longrightarrow> aligned s \<longrightarrow>
      nFaces s \<le> CH_MAX_NUM_FACES \<longrightarrow> \<not> ERROR s \<longrightarrow> ERROR st' \<longrightarrow>
      nFaces st' = 0 \<and> main_loop d' plane' det' points' st = Inr st' \<and>
      output_3d st' = \<lparr>out_faces = None, nOut_faces = 0\<rparr> \<and>
      output_nd st' = \<lparr>out_faces = None, nOut_faces = 0, out_cf = None, out_df = None\<rparr>) \<and>
   (3 \<le> length vs3 \<longrightarrow>
      ceiling_trips 3 plane_3d det_4x4
        (perturb noise3 3 (\<lambda>i j. vertex_coord (vs3 ! i) j) (length vs3)) n3 \<longrightarrow>
      convhull_3d_build noise3 vs3 = Inr \<lparr>out_faces = None, nOut_faces = 0\<rparr>) \<and>
   (dm \<le> CONVHULL_ND_MAX_DIMENSIONS \<longrightarrow> dm < nVertm \<longrightarrow>
      ceiling_trips dm (plane_nd dm) (det_nd dm)
        (perturb noisem dm (\<lambda>i j. vsm ! (i * dm + j)) nVertm) nm \<longrightarrow>
      convhull_nd_build noisem vsm nVertm dm =
        Inr \<lparr>out_faces = None, nOut_faces = 0, out_cf = None, out_df = None\<rparr>) \<and>
   (convhull_3d_build noise vs = Inr out3 \<longrightarrow>
      (case out_faces out3 of
         None \<Rightarrow> nOut_faces out3 = 0
       | Some fs \<Rightarrow> nOut_faces out3 = length fs \<and> length fs \<le> 50000)) \<and>
   (convhull_nd_build noise' vsn nVert dn = Inr outn \<longrightarrow>
      (case out_faces outn of
         None \<Rightarrow> nOut_faces outn = 0 \<and> out_cf outn = None \<and> out_df outn = None
       | Some fs \<Rightarrow> nOut_faces outn = length fs \<and> length fs \<le> 50000))"
proof (intro conjI impI)
  assume a: "add_faces d plane points i hs (F, C, D) = Inr (r, err)"
    and l: "length C = length F" "length D = length F" "length F \<le> CH_MAX_NUM_FACES"
  show "err \<longleftrightarrow> CH_MAX_NUM_FACES < length F + length hs"
    by (rule add_faces_error_iff[OF a l(3)])
  obtain F' C' D' where r: "r = (F', C', D')" by (cases r) auto
  from add_faces_result[OF a[unfolded r] l(1,2)] r
  show "r = ([], [], [])" if err using that by simp
next
  assume it: "iteration d1 plane1 det1 points1 s1 = Inr s1'" and p: "pleft s1 = i1 # rest1"
    and b: "nFaces s1 \<le> CH_MAX_NUM_FACES" and e: "\<not> ERROR s1"
  show "ERROR s1' \<longleftrightarrow>
         CH_MAX_NUM_FACES <
           length (filter (\<lambda>j. \<not> dot d1 (take d1 (points1 ! i1)) (cf s1 ! j) + df s1 ! j > 0)
                     [0..<nFaces s1]) +
           length (horizon_of d1 (faces s1)
                     (filter (\<lambda>j. dot d1 (take d1 (points1 ! i1)) (cf s1 ! j) + df s1 ! j > 0)
                        [0..<nFaces s1])
                     (map (\<lambda>j. faces s1 ! j)
                        (filter (\<lambda>j. \<not> dot d1 (take d1 (points1 ! i1)) (cf s1 ! j) + df s1 ! j > 0)
                           [0..<nFaces s1])))"
    by (rule iteration_error_iff[OF it p b e])
next
  assume pre: "loop_prefix d' plane' det' points' n st = Some s"
    and it: "iteration d' plane' det' points' s = Inr st'" and ne: "pleft s \<noteq> []"
    and al: "aligned s" and b: "nFaces s \<le> CH_MAX_NUM_FACES" and e: "\<not> ERROR s" "ERROR st'"
  from iteration_aligned[OF it ne al b] e show "nFaces st' = 0" by simp
  from main_loop_trips[OF pre ne it e(2)]
  show "main_loop d' plane' det' points' st = Inr st'" .
  from e(2) show "output_3d st' = \<lparr>out_faces = None, nOut_faces = 0\<rparr>"
    by (simp add: output_3d_def)
  from e(2) show "output_nd st' = \<lparr>out_faces = None, nOut_faces = 0, out_cf = None, out_df = None\<rparr>"
    by (simp add: output_nd_def)
next
  assume l: "3 \<le> length vs3"
    and t: "ceiling_trips 3 plane_3d det_4x4
        (perturb noise3 3 (\<lambda>i j. vertex_coord (vs3 ! i) j) (length vs3)) n3"
  from hull_engine_ceiling[OF t] obtain s' where
    "hull_engine 3 plane_3d det_4x4
        (perturb noise3 3 (\<lambda>i j. vertex_coord (vs3 ! i) j) (length vs3)) = Inr s'" "ERROR s'"
    by blast
  with l show "convhull_3d_build noise3 vs3 = Inr \<lparr>out_faces = None, nOut_faces = 0\<rparr>"
    by (simp add: convhull_3d_build_def Let_def output_3d_def)
next
  assume l: "dm \<le> CONVHULL_ND_MAX_DIMENSIONS" "dm < nVertm"
    and t: "ceiling_trips dm (plane_nd dm) (det_nd dm)
        (perturb noisem dm (\<lambda>i j. vsm ! (i * dm + j)) nVertm) nm"
  from hull_engine_ceiling[OF t] obtain s' where
    "hull_engine dm (plane_nd dm) (det_nd dm)
        (perturb noisem dm (\<lambda>i j. vsm ! (i * dm + j)) nVertm) = Inr s'" "ERROR s'"
    by blast
  with l show "convhull_nd_build noisem vsm nVertm dm =
        Inr \<lparr>out_faces = None, nOut_faces = 0, out_cf = None, out_df = None\<rparr>"
    by (simp add: convhull_nd_build_def Let_def output_nd_def)
next
  assume "convhull_3d_build noise vs = Inr out3"
  from convhull_3d_build_bound[OF this]
  show "case out_faces out3 of
         None \<Rightarrow> nOut_faces out3 = 0
       | Some fs \<Rightarrow> nOut_faces out3 = length fs \<and> length fs \<le> 50000"
    by (simp add: CH_MAX_NUM_FACES_def split: option.splits)
next
  assume "convhull_nd_build noise' vsn nVert dn = Inr outn"
  from convhull_nd_build_bound[OF this]
  show "case out_faces outn of
         None \<Rightarrow> nOut_faces outn = 0 \<and> out_cf outn = None \<and> out_df outn = None
       | Some fs \<Rightarrow> nOut_faces outn = length fs \<and> length fs \<le> 50000"
    by (auto simp: CH_MAX_NUM_FACES_def split: option.splits)
qed


theorem resource_ceiling_witness:
  "add_faces 3 plane_3d ceiling_points 4 [[0, 1], [0, 1]]
     (replicate 49999 [0, 2, 1], replicate 49999 [0, 0, - 1], replicate 49999 0) =
     Inr (([], [], []), True) \<and>
   CH_MAX_NUM_FACES < length (replicate 49999 [0, 2, 1 :: nat]) + length [[0, 1 :: nat], [0, 1]] \<and>
   iteration 3 plane_3d det_4x4 ceiling_points ceiling_state =
     Inr \<lparr>faces = [], cf = [], df = [], pleft = [], ERROR = True\<rparr> \<and>
   pleft ceiling_state = [4] \<and> aligned ceiling_state \<and> nFaces ceiling_state \<le> CH_MAX_NUM_FACES \<and>
   \<not> ERROR ceiling_state \<and>
   CH_MAX_NUM_FACES <
     length (filter (\<lambda>j. \<not> dot 3 (take 3 (ceiling_points ! 4)) (cf ceiling_state ! j) +
                            df ceiling_state ! j > 0) [0..<nFaces ceiling_state]) +
     length (horizon_of 3 (faces ceiling_state)
               (filter (\<lambda>j. dot 3 (take 3 (ceiling_points ! 4)) (cf ceiling_state ! j) +
                              df ceiling_state ! j > 0) [0..<nFaces ceiling_state])
               (map (\<lambda>j. faces ceiling_state ! j)
                  (filter (\<lambda>j. \<not> dot 3 (take 3 (ceiling_points ! 4)) (cf ceiling_state ! j) +
                                 df ceiling_state ! j > 0) [0..<nFaces ceiling_state]))) \<and>
   loop_prefix 3 plane_3d det_4x4 ceiling_points 0 ceiling_state = Some ceiling_state \<and>
   main_loop 3 plane_3d det_4x4 ceiling_points ceiling_state =
     Inr \<lparr>faces = [], cf = [], df = [], pleft = [], ERROR = True\<rparr> \<and>
   convhull_3d_build (\<lambda>k. 0) [(0, 0, 0), (1, 0, 0), (0, 1, 0), (0, 0, 2)] =
     Inr \<lparr>out_faces = Some [[1, 2, 3], [0, 3, 2], [0, 1, 3], [0, 2, 1]], nOut_faces = 4\<rparr> \<and>
   convhull_nd_build (\<lambda>k. 0) [0, 0, 0, 1, 0, 0, 0, 1, 0, 0, 0, 2] 4 3 =
     Inr \<lparr>out_faces = Some [[1, 2, 3], [0, 3, 2], [0, 1, 3], [0, 2, 1]], nOut_faces = 4,
          out_cf = Some [[2/3, 2/3, 1/3], [- 1, 0, 0], [0, - 1, 0], [0, 0, - 1]],
          out_df = Some [- 2/3, 0, 0, 0]\<rparr> \<and>
   (4 :: nat) \<le> 50000"
proof -
  have a: "add_faces 3 plane_3d ceiling_points 4 [[0, 1], [0, 1]]
     (replicate 49999 [0, 2, 1], replicate 49999 [0, 0, - 1], replicate 49999 0) =
     Inr (([], [], []), True)"
    by (simp add: face_plane_def point_row_def ceiling_points_def CH_MAX_NUM_FACES_def split: prod.splits)
  have s: "pleft ceiling_state = [4]" "aligned ceiling_state" "nFaces ceiling_state \<le> CH_MAX_NUM_FACES"
    "\<not> ERROR ceiling_state"
    by (simp_all add: ceiling_state_def aligned_def nFaces_def CH_MAX_NUM_FACES_def)
  have l: "loop_prefix 3 plane_3d det_4x4 ceiling_points 0 ceiling_state = Some ceiling_state"
    by simp
  note t = resource_ceiling[where d = 3 and plane = plane_3d and points = ceiling_points and i = 4
      and hs = "[[0, 1], [0, 1]]" and F = "replicate 49999 [0, 2, 1]"
      and C = "replicate 49999 [0, 0, - 1]" and D = "replicate 49999 0" and r = "([], [], [])"
      and err = True
      and ?d1.0 = 3 and ?plane1.0 = plane_3d and ?det1.0 = det_4x4 and ?points1.0 = ceiling_points
      and ?s1.0 = ceiling_state and s1' = "\<lparr>faces = [], cf = [], df = [], pleft = [], ERROR = True\<rparr>"
      and ?i1.0 = 4 and ?rest1.0 = "[]"
      and d' = 3 and plane' = plane_3d and det' = det_4x4 and points' = ceiling_points and n = 0
      and st = ceiling_state and s = ceiling_state
      and st' = "\<lparr>faces = [], cf = [], df = [], pleft = [], ERROR = True\<rparr>"
      and noise = "\<lambda>k. 0" and vs = "[(0, 0, 0), (1, 0, 0), (0, 1, 0), (0, 0, 2)]"
      and ?out3.0 = "\<lparr>out_faces = Some [[1, 2, 3], [0, 3, 2], [0, 1, 3], [0, 2, 1]], nOut_faces = 4\<rparr>"
      and noise' = "\<lambda>k. 0" and vsn = "[0, 0, 0, 1, 0, 0, 0, 1, 0, 0, 0, 2]" and nVert = 4 and dn = 3
      and outn = "\<lparr>out_faces = Some [[1, 2, 3], [0, 3, 2], [0, 1, 3], [0, 2, 1]], nOut_faces = 4,
          out_cf = Some [[2/3, 2/3, 1/3], [- 1, 0, 0], [0, - 1, 0], [0, 0, - 1]],
          out_df = Some [- 2/3, 0, 0, 0]\<rparr>"]
  from t a s l trip_iteration tetra_3d tetra_nd show ?thesis
    by (simp add: CH_MAX_NUM_FACES_def)
qed

section \<open>Claims about the input checks\<close>

text \<open>
  C3. Rejection of degenerate input. The N-D builder returns the empty result for
  \<open>nVert \<le> d\<close>, and both builders throw before any hull construction when an axis span is
  below the threshold (lemma \<open>degenerate_input_rejected\<close>). But the 3-D builder, for which
  \<open>d + 1 = 4\<close>, only returns early for fewer than 3 vertices: on the three vertices
  \<open>(1,0,0)\<close>, \<open>(0,1,0)\<close>, \<open>(0,0,1)\<close> it passes the span check and then reads the row of a fourth
  point beyond the working array, where the N-D builder on the same coordinates returns
  the empty result.
\<close>

theorem convhull_3d_three_points:
  "convhull_3d_build (\<lambda>k. 0) [(1, 0, 0), (0, 1, 0), (0, 0, 1)] = Inl OutOfBounds \<and>
   convhull_nd_build (\<lambda>k. 0) [1, 0, 0, 0, 1, 0, 0, 0, 1] 3 3 =
     Inr \<lparr>out_faces = None, nOut_faces = 0, out_cf = None, out_df = None\<rparr>"
  by (simp add: convhull_3d_build_def convhull_nd_build_def hull_eval)


text \<open>
  C5. The two builders on the same coordinates. For every vertex count other than 3 they
  return the same outcome and the same facet list (lemma \<open>builders_agree\<close>). On three
  vertices they differ: for three vertices in the plane \<open>z = 0\<close> the 3-D builder throws at the
  span check, and the N-D builder with \<open>d = 3\<close> returns the empty result.
\<close>

theorem builders_differ_on_three_points:
  "convhull_3d_build (\<lambda>k. 0) [(0, 0, 0), (1, 0, 0), (0, 1, 0)] = Inl SpanError \<and>
   convhull_nd_build (\<lambda>k. 0) [0, 0, 0, 1, 0, 0, 0, 1, 0] 3 3 =
     Inr \<lparr>out_faces = None, nOut_faces = 0, out_cf = None, out_df = None\<rparr>"
  by (simp add: convhull_3d_build_def convhull_nd_build_def hull_eval)


section \<open>Claims about the Delaunay reduction\<close>

text \<open>
  C2. Every call of \<open>delaunay_nd_mesh\<close> that returns has run the hull builder on the lifted
  points with the following draws of \<open>rand\<close>; \<open>maxW_idx\<close> is an index \<open>m\<close> of a lifted point of
  maximal height; the synthetic point is \<open>(0, ..., 0, w2)\<close> with
  \<open>w2 = w_opt - 1000 * |w_opt|\<close> and \<open>w_opt = w0 - sum_j 2 * p0[j]^2\<close>, \<open>(p0, w0)\<close> being lifted
  point \<open>m\<close>; \<open>nMesh\<close> is the number of hull facets with \<open>dot(normal, p) + offset > 0\<close>, and when
  there is one, \<open>Mesh\<close> holds exactly those facets, in hull order.
\<close>

theorem delaunay_reduction:
  assumes "delaunay_nd_mesh noise points nPoints nd io = Inr io'"
  shows "\<exists>res m.
     convhull_nd_build (\<lambda>k. noise (nPoints * nd + k))
        (concat (lift_points noise points nPoints nd)) nPoints (nd + 1) = Inr res \<and>
     m < nPoints \<and>
     snd (find_maxW (lift_points noise points nPoints nd) nPoints nd) = int m \<and>
     (\<forall>i<nPoints. lift_points noise points nPoints nd ! i ! nd
                  \<le> lift_points noise points nPoints nd ! m ! nd) \<and>
     synthetic_point (lift_points noise points nPoints nd) m nd =
       replicate nd 0 @
         [(lift_points noise points nPoints nd ! m ! nd
             - (\<Sum>j\<leftarrow>[0..<nd]. 2 * (lift_points noise points nPoints nd ! m ! j)\<^sup>2))
          - 1000 * \<bar>lift_points noise points nPoints nd ! m ! nd
             - (\<Sum>j\<leftarrow>[0..<nd]. 2 * (lift_points noise points nPoints nd ! m ! j)\<^sup>2)\<bar>] \<and>
     nMesh io' =
       length (lower_hull_faces nd (synthetic_point (lift_points noise points nPoints nd) m nd)
                 (array_of (out_faces res)) (array_of (out_cf res)) (array_of (out_df res))) \<and>
     (lower_hull_faces nd (synthetic_point (lift_points noise points nPoints nd) m nd)
          (array_of (out_faces res)) (array_of (out_cf res)) (array_of (out_df res)) \<noteq> [] \<longrightarrow>
      Mesh io' =
        Some (lower_hull_faces nd (synthetic_point (lift_points noise points nPoints nd) m nd)
                (array_of (out_faces res)) (array_of (out_cf res)) (array_of (out_df res))))"
  using assms
proof (cases rule: delaunay_result)
  case (1 res m)
  show ?thesis
    by (intro exI[of _ res] exI[of _ m] conjI "1"(1,2,3,4,5) synthetic_point_eq impI "1"(6))
qed

theorem delaunay_reduction_witness:
  "delaunay_nd_mesh (\<lambda>k. 0) delaunay_points 4 2 \<lparr>Mesh = None, nMesh = 0\<rparr> =
     Inr \<lparr>Mesh = Some [[1, 3, 2], [0, 3, 1]], nMesh = 2\<rparr> \<and>
   convhull_nd_build (\<lambda>k. 0 :: real) (concat (lift_points (\<lambda>k. 0) delaunay_points 4 2)) 4 (2 + 1) = Inr lifted_hull \<and>
   snd (find_maxW (lift_points (\<lambda>k. 0) delaunay_points 4 2) 4 2) = 2 \<and>
   synthetic_point (lift_points (\<lambda>k. 0) delaunay_points 4 2) 2 2 = [0, 0, - 13013 / 4] \<and>
   lower_hull_faces 2 [0, 0, - 13013 / 4] (array_of (out_faces lifted_hull)) (array_of (out_cf lifted_hull))
      (array_of (out_df lifted_hull)) = [[1, 3, 2], [0, 3, 1]] \<and>
   nMesh \<lparr>Mesh = Some [[1, 3, 2], [0, 3, 1]], nMesh = 2\<rparr> =
     length (lower_hull_faces 2 (synthetic_point (lift_points (\<lambda>k. 0) delaunay_points 4 2) 2 2)
               (array_of (out_faces lifted_hull)) (array_of (out_cf lifted_hull)) (array_of (out_df lifted_hull))) \<and>
   Mesh \<lparr>Mesh = Some [[1, 3, 2], [0, 3, 1]], nMesh = 2\<rparr> =
     Some (lower_hull_faces 2 (synthetic_point (lift_points (\<lambda>k. 0) delaunay_points 4 2) 2 2)
               (array_of (out_faces lifted_hull)) (array_of (out_cf lifted_hull)) (array_of (out_df lifted_hull)))"
proof -
  have n: "(2 :: nat) + 1 = 3" by simp
  have h: "convhull_nd_build (\<lambda>k. 0 :: real) (concat (lift_points (\<lambda>k. 0) delaunay_points 4 2)) 4 (2 + 1) = Inr lifted_hull"
    unfolding lift_points_example n by (rule lifted_hull_example)
  have mw: "snd (find_maxW (lift_points (\<lambda>k. 0) delaunay_points 4 2) 4 2) = 2"
    unfolding lift_points_example find_maxW_example by simp
  have sp: "synthetic_point (lift_points (\<lambda>k. 0) delaunay_points 4 2) 2 2 = [0, 0, - 13013 / 4]"
    unfolding lift_points_example by (rule synthetic_point_example)
  from delaunay_reduction[OF delaunay_example] obtain res m where
    r: "convhull_nd_build (\<lambda>k. 0 :: real) (concat (lift_points (\<lambda>k. 0) delaunay_points 4 2)) 4 (2 + 1) = Inr res"
    and m: "snd (find_maxW (lift_points (\<lambda>k. 0) delaunay_points 4 2) 4 2) = int m"
    and c: "nMesh \<lparr>Mesh = Some [[1, 3, 2], [0, 3, 1]], nMesh = 2\<rparr> =
       length (lower_hull_faces 2 (synthetic_point (lift_points (\<lambda>k. 0) delaunay_points 4 2) m 2)
                 (array_of (out_faces res)) (array_of (out_cf res)) (array_of (out_df res)))"
    and d: "lower_hull_faces 2 (synthetic_point (lift_points (\<lambda>k. 0) delaunay_points 4 2) m 2)
                 (array_of (out_faces res)) (array_of (out_cf res)) (array_of (out_df res)) \<noteq> [] \<longrightarrow>
       Mesh \<lparr>Mesh = Some [[1, 3, 2], [0, 3, 1]], nMesh = 2\<rparr> =
       Some (lower_hull_faces 2 (synthetic_point (lift_points (\<lambda>k. 0) delaunay_points 4 2) m 2)
                 (array_of (out_faces res)) (array_of (out_cf res)) (array_of (out_df res)))"
    by (elim exE conjE)
  from r h have res: "res = lifted_hull" by simp
  from m mw have m2: "m = 2" by simp
  note c' = c[unfolded res m2]
  have ne: "lower_hull_faces 2 (synthetic_point (lift_points (\<lambda>k. 0) delaunay_points 4 2) 2 2)
                 (array_of (out_faces lifted_hull)) (array_of (out_cf lifted_hull)) (array_of (out_df lifted_hull)) \<noteq> []"
    unfolding sp lower_hull_example by simp
  note d' = d[unfolded res m2, rule_format, OF ne]
  show ?thesis
    by (intro conjI) (rule delaunay_example h mw sp lower_hull_example c' d')+
qed


text \<open>
  C10 (as amended). For every call of \<open>delaunay_nd_mesh\<close> with at least one input point in
  which the hull builder returns and no facet is classified visible, and in particular
  whenever the hull builder reports zero facets, the call returns normally, \<open>nMesh\<close> is set to
  0 and \<open>Mesh\<close> keeps its prior value.
\<close>

theorem delaunay_no_visible_facet:
  "(0 < nPoints \<longrightarrow>
    convhull_nd_build (\<lambda>k. noise (nPoints * nd + k))
        (concat (lift_points noise points nPoints nd)) nPoints (nd + 1) = Inr res \<longrightarrow>
    lower_hull_faces nd
        (synthetic_point (lift_points noise points nPoints nd)
           (nat (snd (find_maxW (lift_points noise points nPoints nd) nPoints nd))) nd)
        (array_of (out_faces res)) (array_of (out_cf res)) (array_of (out_df res)) = [] \<longrightarrow>
    delaunay_nd_mesh noise points nPoints nd io = Inr (io\<lparr>nMesh := 0\<rparr>)) \<and>
   (0 < nPoints' \<longrightarrow>
    convhull_nd_build (\<lambda>k. noise' (nPoints' * nd' + k))
        (concat (lift_points noise' points' nPoints' nd')) nPoints' (nd' + 1) = Inr res' \<longrightarrow>
    nOut_faces res' = 0 \<longrightarrow>
    delaunay_nd_mesh noise' points' nPoints' nd' io0 = Inr (io0\<lparr>nMesh := 0\<rparr>))"
proof (intro conjI impI)
  assume "0 < nPoints"
    and "convhull_nd_build (\<lambda>k. noise (nPoints * nd + k))
        (concat (lift_points noise points nPoints nd)) nPoints (nd + 1) = Inr res"
    and "lower_hull_faces nd
        (synthetic_point (lift_points noise points nPoints nd)
           (nat (snd (find_maxW (lift_points noise points nPoints nd) nPoints nd))) nd)
        (array_of (out_faces res)) (array_of (out_cf res)) (array_of (out_df res)) = []"
  then show "delaunay_nd_mesh noise points nPoints nd io = Inr (io\<lparr>nMesh := 0\<rparr>)"
    by (rule delaunay_none_visible)
next
  assume pos: "0 < nPoints'"
    and res: "convhull_nd_build (\<lambda>k. noise' (nPoints' * nd' + k))
        (concat (lift_points noise' points' nPoints' nd')) nPoints' (nd' + 1) = Inr res'"
    and z: "nOut_faces res' = 0"
  show "delaunay_nd_mesh noise' points' nPoints' nd' io0 = Inr (io0\<lparr>nMesh := 0\<rparr>)"
    by (rule delaunay_none_visible[OF pos res no_facet_none_visible[OF res z]])
qed

theorem delaunay_no_visible_facet_witness:
  "convhull_nd_build (\<lambda>k. 0 :: real) (concat (lift_points (\<lambda>k. 0) [5] 1 1)) 1 (1 + 1) =
     Inr \<lparr>out_faces = None, nOut_faces = 0, out_cf = None, out_df = None\<rparr> \<and>
   lower_hull_faces 1
     (synthetic_point (lift_points (\<lambda>k. 0) [5] 1 1)
        (nat (snd (find_maxW (lift_points (\<lambda>k. 0) [5] 1 1) 1 1))) 1)
     (array_of (None :: nat list list option)) (array_of None) (array_of None) = [] \<and>
   delaunay_nd_mesh (\<lambda>k. 0) [5] 1 1 \<lparr>Mesh = Some [[7, 7]], nMesh = 3\<rparr> =
     Inr \<lparr>Mesh = Some [[7, 7]], nMesh = 0\<rparr>"
proof -
  have h: "convhull_nd_build (\<lambda>k. 0 :: real) (concat (lift_points (\<lambda>k. 0) [5] 1 1)) 1 (1 + 1) =
     Inr \<lparr>out_faces = None, nOut_faces = 0, out_cf = None, out_df = None\<rparr>"
    by (simp add: convhull_nd_build_def CONVHULL_ND_MAX_DIMENSIONS_def)
  have l: "lower_hull_faces 1 p (array_of (None :: nat list list option)) (array_of None)
             (array_of None) = []" for p
    by (simp add: lower_hull_faces_def array_of_def)
  note t = delaunay_no_visible_facet[where nPoints = 1 and noise = "\<lambda>k. 0" and nd = 1
      and points = "[5]"
      and res = "\<lparr>out_faces = None, nOut_faces = 0, out_cf = None, out_df = None\<rparr>"
      and io = "\<lparr>Mesh = Some [[7, 7]], nMesh = 3\<rparr>"
      and nPoints' = 1 and noise' = "\<lambda>k. 0" and nd' = 1 and points' = "[5]"
      and res' = "\<lparr>out_faces = None, nOut_faces = 0, out_cf = None, out_df = None\<rparr>"
      and ?io0.0 = "\<lparr>Mesh = Some [[7, 7]], nMesh = 3\<rparr>"]
  from t h l show ?thesis by simp
qed

text \<open>
  With no input point at all the hull builder also returns without a facet, but the search
  for the highest lifted point leaves \<open>maxW_idx = -1\<close> and the assertion fails.
\<close>

theorem delaunay_zero_points_counterexample:
  "convhull_nd_build (\<lambda>k. 0) [] 0 (2 + 1) =
     Inr \<lparr>out_faces = None, nOut_faces = 0, out_cf = None, out_df = None\<rparr> \<and>
   delaunay_nd_mesh (\<lambda>k. 0) [] 0 2 \<lparr>Mesh = None, nMesh = 7\<rparr> = Inl AssertionError"
  by (simp add: delaunay_nd_mesh_def convhull_nd_build_def CONVHULL_ND_MAX_DIMENSIONS_def
        lift_points_def find_maxW_def)

section \<open>Claims about the facet table\<close>

text \<open>
  C6. Facet validity. Whenever one of the two builders returns a facet list, the reported
  count is its length and every facet has exactly \<open>d\<close> pairwise distinct point indices (3 for
  the 3-D builder), each below the number of input points. An index \<open>v\<close> addresses the
  input array: row \<open>v\<close> of the working array is input vertex \<open>v\<close> with its perturbation and
  the trailing 1.
\<close>

theorem facet_validity:
  "(convhull_3d_build noise vs = Inr out3 \<longrightarrow> out_faces out3 = Some fs3 \<longrightarrow>
      nOut_faces out3 = length fs3 \<and> (\<forall>f \<in> set fs3. valid_face 3 (length vs) f)) \<and>
   (convhull_nd_build noise' xs nVert d = Inr out \<longrightarrow> out_faces out = Some fs \<longrightarrow>
      nOut_faces out = length fs \<and> (\<forall>f \<in> set fs. valid_face d nVert f)) \<and>
   (v < nVert' \<longrightarrow>
      point_row (perturb noise'' d' vertex nVert') v =
        Inr (map (\<lambda>j. vertex v j + CH_NOISE_VAL * noise'' (v * d' + j)) [0..<d'] @ [1]))"
proof (intro conjI impI)
  assume a: "convhull_3d_build noise vs = Inr out3" and b: "out_faces out3 = Some fs3"
  let ?pts = "perturb noise 3 (\<lambda>i j. vertex_coord (vs ! i) j) (length vs)"
  from a b obtain st where h: "hull_engine 3 plane_3d det_4x4 ?pts = Inr st"
    and out: "out3 = output_3d st"
    by (auto simp: convhull_3d_build_def Let_def split: if_splits sum.splits)
  from b out have e: "\<not> ERROR st" "fs3 = faces st" "nOut_faces out3 = nFaces st"
    by (auto simp: output_3d_def split: if_splits)
  from hull_engine_faces_inv[OF h] e
  show "nOut_faces out3 = length fs3" "\<forall>f \<in> set fs3. valid_face 3 (length vs) f"
    by (simp_all add: faces_inv_def length_perturb nFaces_def)
next
  assume a: "convhull_nd_build noise' xs nVert d = Inr out" and b: "out_faces out = Some fs"
  let ?pts = "perturb noise' d (\<lambda>i j. xs ! (i * d + j)) nVert"
  from a b obtain st where h: "hull_engine d (plane_nd d) (det_nd d) ?pts = Inr st"
    and out: "out = output_nd st"
    by (auto simp: convhull_nd_build_def Let_def split: if_splits sum.splits)
  from b out have e: "\<not> ERROR st" "fs = faces st" "nOut_faces out = nFaces st"
    by (auto simp: output_nd_def split: if_splits)
  from hull_engine_faces_inv[OF h] e
  show "nOut_faces out = length fs" "\<forall>f \<in> set fs. valid_face d nVert f"
    by (simp_all add: faces_inv_def length_perturb nFaces_def)
next
  assume "v < nVert'"
  then show "point_row (perturb noise'' d' vertex nVert') v =
        Inr (map (\<lambda>j. vertex v j + CH_NOISE_VAL * noise'' (v * d' + j)) [0..<d'] @ [1])"
    by (simp add: point_row_def perturb_def)
qed


theorem facet_validity_witness:
  "convhull_3d_build (\<lambda>k. 0) [(0, 0, 0), (1, 0, 0), (0, 1, 0), (0, 0, 2)] =
     Inr \<lparr>out_faces = Some [[1, 2, 3], [0, 3, 2], [0, 1, 3], [0, 2, 1]], nOut_faces = 4\<rparr> \<and>
   convhull_nd_build (\<lambda>k. 0) [0, 0, 0, 1, 0, 0, 0, 1, 0, 0, 0, 2] 4 3 =
     Inr \<lparr>out_faces = Some [[1, 2, 3], [0, 3, 2], [0, 1, 3], [0, 2, 1]], nOut_faces = 4,
          out_cf = Some [[2/3, 2/3, 1/3], [- 1, 0, 0], [0, - 1, 0], [0, 0, - 1]],
          out_df = Some [- 2/3, 0, 0, 0]\<rparr> \<and>
   valid_face 3 4 [1, 2, 3] \<and> valid_face 3 4 [0, 3, 2] \<and> valid_face 3 4 [0, 1, 3] \<and>
   valid_face 3 4 [0, 2, 1] \<and>
   point_row (perturb (\<lambda>k. 0) 3 (\<lambda>i j. [0, 0, 0, 1, 0, 0, 0, 1, 0, 0, 0, 2 :: real] ! (i * 3 + j)) 4) 3 =
     Inr [0, 0, 2, 1]"
proof -
  note t = facet_validity[of "\<lambda>k. 0" "[(0, 0, 0), (1, 0, 0), (0, 1, 0), (0, 0, 2)]"
      "\<lparr>out_faces = Some [[1, 2, 3], [0, 3, 2], [0, 1, 3], [0, 2, 1]], nOut_faces = 4\<rparr>"
      "[[1, 2, 3], [0, 3, 2], [0, 1, 3], [0, 2, 1]]"
      "\<lambda>k. 0" "[0, 0, 0, 1, 0, 0, 0, 1, 0, 0, 0, 2]" 4 3
      "\<lparr>out_faces = Some [[1, 2, 3], [0, 3, 2], [0, 1, 3], [0, 2, 1]], nOut_faces = 4,
          out_cf = Some [[2/3, 2/3, 1/3], [- 1, 0, 0], [0, - 1, 0], [0, 0, - 1]],
          out_df = Some [- 2/3, 0, 0, 0]\<rparr>"
      "[[1, 2, 3], [0, 3, 2], [0, 1, 3], [0, 2, 1]]"
      3 4 "\<lambda>k. 0" 3 "\<lambda>i j. [0, 0, 0, 1, 0, 0, 0, 1, 0, 0, 0, 2 :: real] ! (i * 3 + j)"]
  from t tetra_3d tetra_nd show ?thesis
    by (simp add: CH_NOISE_VAL_def upt_conv_Cons)
qed

end
